theory Spec2Isabelle
  imports Main "HOL-Library.Sublist" "HOL-Library.Word"
begin

unbundle bit_operations_syntax

section \<open>Go values\<close>

text \<open>
  A Go string is a sequence of bytes: it is modelled by \<open>string\<close>, whose characters are
  8-bit. A Go slice is either nil or a sequence: \<open>None\<close> is the nil slice, \<open>Some xs\<close> a
  slice that is not nil. A \<open>range\<close> loop over the nil slice runs no iteration.
\<close>

type_synonym 'a slice = "'a list option"

definition elems :: "'a slice \<Rightarrow> 'a list" where
  "elems s = (case s of None \<Rightarrow> [] | Some xs \<Rightarrow> xs)"

text \<open>\<open>filepath.Separator\<close> is the one value of the package that depends on the platform.\<close>

datatype goos = Unix | Windows

definition Separator :: "goos \<Rightarrow> char" where
  "Separator os = (case os of Unix \<Rightarrow> CHR ''/'' | Windows \<Rightarrow> CHR 0x5C)"

section \<open>Library functions of package strings and path/filepath\<close>

definition HasPrefix :: "string \<Rightarrow> string \<Rightarrow> bool" where
  "HasPrefix s p = prefix p s"

definition TrimSuffix :: "string \<Rightarrow> string \<Rightarrow> string" where
  "TrimSuffix s suf = (if suffix suf s then take (length s - length suf) s else s)"

text \<open>
  \<open>unicode.IsSpace\<close> holds of the code points U+0009 to U+000D, U+0020, U+0085, U+00A0,
  U+1680, U+2000 to U+200A, U+2028, U+2029, U+202F, U+205F and U+3000. \<open>space_runes\<close>
  lists their UTF-8 encodings: \<open>strings.TrimSpace\<close> decodes the string from either end
  and removes the runes that are white space; a byte sequence that is not one of these
  encodings decodes to a rune that is not white space.
\<close>

definition space_runes :: "string list" where
  "space_runes =
    [[CHR 0x09], [CHR 0x0A], [CHR 0x0B], [CHR 0x0C], [CHR 0x0D], [CHR 0x20],
     [CHR 0xC2, CHR 0x85], [CHR 0xC2, CHR 0xA0],
     [CHR 0xE1, CHR 0x9A, CHR 0x80],
     [CHR 0xE2, CHR 0x80, CHR 0x80], [CHR 0xE2, CHR 0x80, CHR 0x81],
     [CHR 0xE2, CHR 0x80, CHR 0x82], [CHR 0xE2, CHR 0x80, CHR 0x83],
     [CHR 0xE2, CHR 0x80, CHR 0x84], [CHR 0xE2, CHR 0x80, CHR 0x85],
     [CHR 0xE2, CHR 0x80, CHR 0x86], [CHR 0xE2, CHR 0x80, CHR 0x87],
     [CHR 0xE2, CHR 0x80, CHR 0x88], [CHR 0xE2, CHR 0x80, CHR 0x89],
     [CHR 0xE2, CHR 0x80, CHR 0x8A],
     [CHR 0xE2, CHR 0x80, CHR 0xA8], [CHR 0xE2, CHR 0x80, CHR 0xA9],
     [CHR 0xE2, CHR 0x80, CHR 0xAF],
     [CHR 0xE2, CHR 0x81, CHR 0x9F],
     [CHR 0xE3, CHR 0x80, CHR 0x80]]"

definition leading_space :: "string \<Rightarrow> string option" where
  "leading_space s = find (\<lambda>t. prefix t s) space_runes"

definition trailing_space :: "string \<Rightarrow> string option" where
  "trailing_space s = find (\<lambda>t. suffix t s) space_runes"

lemma space_runes_nonempty: "t \<in> set space_runes \<Longrightarrow> 0 < length t"
  by (auto simp: space_runes_def)

lemma leading_space_Some:
  "leading_space s = Some t \<Longrightarrow> t \<in> set space_runes \<and> prefix t s"
  by (auto simp: leading_space_def find_Some_iff)

lemma trailing_space_Some:
  "trailing_space s = Some t \<Longrightarrow> t \<in> set space_runes \<and> suffix t s"
  by (auto simp: trailing_space_def find_Some_iff)

function TrimLeftSpace :: "string \<Rightarrow> string" where
  "TrimLeftSpace s =
     (case leading_space s of
        None \<Rightarrow> s
      | Some t \<Rightarrow> TrimLeftSpace (drop (length t) s))"
  by pat_completeness auto
termination
proof (relation "measure length")
  show "wf (measure length)" by simp
next
  fix s t
  assume "leading_space s = Some t"
  then have "0 < length t" "prefix t s"
    using leading_space_Some space_runes_nonempty by blast+
  then have "0 < length t" "length t \<le> length s"
    by (simp_all add: prefix_length_le)
  then have "length s - length t < length s" by arith
  then show "(drop (length t) s, s) \<in> measure length" by simp
qed

function TrimRightSpace :: "string \<Rightarrow> string" where
  "TrimRightSpace s =
     (case trailing_space s of
        None \<Rightarrow> s
      | Some t \<Rightarrow> TrimRightSpace (take (length s - length t) s))"
  by pat_completeness auto
termination
proof (relation "measure length")
  show "wf (measure length)" by simp
next
  fix s t
  assume "trailing_space s = Some t"
  then have "0 < length t" "suffix t s"
    using trailing_space_Some space_runes_nonempty by blast+
  then have "0 < length t" "length t \<le> length s"
    by (simp_all add: suffix_length_le)
  then have "length s - length t < length s" by arith
  then show "(take (length s - length t) s, s) \<in> measure length" by simp
qed

declare TrimLeftSpace.simps [simp del] TrimRightSpace.simps [simp del]

definition TrimSpace :: "string \<Rightarrow> string" where
  "TrimSpace s = TrimRightSpace (TrimLeftSpace s)"

text \<open>
  \<open>filepath.ToSlash\<close> returns the path as it is where the separator is the slash, and
  replaces every separator by a slash elsewhere.
\<close>

definition ToSlash :: "goos \<Rightarrow> string \<Rightarrow> string" where
  "ToSlash os path =
     (if Separator os = CHR ''/'' then path
      else map (\<lambda>c. if c = Separator os then CHR ''/'' else c) path)"

section \<open>normalizePrefetchPaths\<close>

text \<open>
  The loop of \<open>normalizePrefetchPaths\<close>, with the slice \<open>normalized\<close> it appends to as
  an accumulator.
\<close>

fun normalize_loop :: "goos \<Rightarrow> string list \<Rightarrow> string list \<Rightarrow> string list" where
  "normalize_loop os normalized [] = normalized"
| "normalize_loop os normalized (p # paths) =
     (let p1 = TrimSpace p in
      if p1 = [] then normalize_loop os normalized paths
      else normalize_loop os (normalized @ [ToSlash os p1]) paths)"

definition normalizePrefetchPaths :: "goos \<Rightarrow> string slice \<Rightarrow> string slice" where
  "normalizePrefetchPaths os paths = Some (normalize_loop os [] (elems paths))"

section \<open>Library functions of package crypto/sha256 and encoding/hex\<close>

text \<open>
  SHA-256 as FIPS 180-4 defines it, on 32-bit words: the message is padded with the byte
  0x80, zero bytes up to 56 modulo 64 and its length in bits as 8 bytes, the most
  significant first; each block of 64 bytes is 16 words, extended to a schedule of 64
  words, and updates the eight words of the hash value in 64 rounds.
\<close>

type_synonym u32 = "32 word"

definition rotr :: "nat \<Rightarrow> u32 \<Rightarrow> u32" where
  "rotr n x = drop_bit n x OR push_bit (32 - n) x"

definition Ch :: "u32 \<Rightarrow> u32 \<Rightarrow> u32 \<Rightarrow> u32" where
  "Ch x y z = (x AND y) XOR (NOT x AND z)"

definition Maj :: "u32 \<Rightarrow> u32 \<Rightarrow> u32 \<Rightarrow> u32" where
  "Maj x y z = (x AND y) XOR (x AND z) XOR (y AND z)"

definition Sigma0 :: "u32 \<Rightarrow> u32" where
  "Sigma0 x = rotr 2 x XOR rotr 13 x XOR rotr 22 x"

definition Sigma1 :: "u32 \<Rightarrow> u32" where
  "Sigma1 x = rotr 6 x XOR rotr 11 x XOR rotr 25 x"

definition sigma0 :: "u32 \<Rightarrow> u32" where
  "sigma0 x = rotr 7 x XOR rotr 18 x XOR drop_bit 3 x"

definition sigma1 :: "u32 \<Rightarrow> u32" where
  "sigma1 x = rotr 17 x XOR rotr 19 x XOR drop_bit 10 x"

definition sha256_K :: "u32 list" where
  "sha256_K =
    [0x428A2F98, 0x71374491, 0xB5C0FBCF, 0xE9B5DBA5, 0x3956C25B, 0x59F111F1, 0x923F82A4, 0xAB1C5ED5,
     0xD807AA98, 0x12835B01, 0x243185BE, 0x550C7DC3, 0x72BE5D74, 0x80DEB1FE, 0x9BDC06A7, 0xC19BF174,
     0xE49B69C1, 0xEFBE4786, 0x0FC19DC6, 0x240CA1CC, 0x2DE92C6F, 0x4A7484AA, 0x5CB0A9DC, 0x76F988DA,
     0x983E5152, 0xA831C66D, 0xB00327C8, 0xBF597FC7, 0xC6E00BF3, 0xD5A79147, 0x06CA6351, 0x14292967,
     0x27B70A85, 0x2E1B2138, 0x4D2C6DFC, 0x53380D13, 0x650A7354, 0x766A0ABB, 0x81C2C92E, 0x92722C85,
     0xA2BFE8A1, 0xA81A664B, 0xC24B8B70, 0xC76C51A3, 0xD192E819, 0xD6990624, 0xF40E3585, 0x106AA070,
     0x19A4C116, 0x1E376C08, 0x2748774C, 0x34B0BCB5, 0x391C0CB3, 0x4ED8AA4A, 0x5B9CCA4F, 0x682E6FF3,
     0x748F82EE, 0x78A5636F, 0x84C87814, 0x8CC70208, 0x90BEFFFA, 0xA4506CEB, 0xBEF9A3F7, 0xC67178F2]"

type_synonym sha256_state = "u32 \<times> u32 \<times> u32 \<times> u32 \<times> u32 \<times> u32 \<times> u32 \<times> u32"

definition sha256_init :: sha256_state where
  "sha256_init =
    (0x6A09E667, 0xBB67AE85, 0x3C6EF372, 0xA54FF53A, 0x510E527F, 0x9B05688C, 0x1F83D9AB, 0x5BE0CD19)"

definition be_bytes :: "nat \<Rightarrow> nat \<Rightarrow> string" where
  "be_bytes k n = map (\<lambda>i. char_of (n div 256 ^ (k - 1 - i))) [0..<k]"

definition be_word :: "string \<Rightarrow> u32" where
  "be_word bs = foldl (\<lambda>w c. push_bit 8 w OR of_char c) 0 bs"

definition sha256_pad :: "string \<Rightarrow> string" where
  "sha256_pad msg =
     msg @ [CHR 0x80] @ replicate ((119 - length msg mod 64) mod 64) (CHR 0x00)
       @ be_bytes 8 ((8 * length msg) mod 2 ^ 64)"

fun sha256_words :: "string \<Rightarrow> u32 list" where
  "sha256_words (a # b # c # d # rest) = be_word [a, b, c, d] # sha256_words rest"
| "sha256_words rest = []"

text \<open>
  The message schedule, kept with the latest word first: \<open>W\<^sub>t\<close> is computed from
  \<open>W\<^bsub>t-2\<^esub>\<close>, \<open>W\<^bsub>t-7\<^esub>\<close>, \<open>W\<^bsub>t-15\<^esub>\<close> and \<open>W\<^bsub>t-16\<^esub>\<close>, which stand at
  the positions 1, 6, 14 and 15 of the reversed schedule.
\<close>

fun sha256_extend :: "nat \<Rightarrow> u32 list \<Rightarrow> u32 list" where
  "sha256_extend 0 rw = rw"
| "sha256_extend (Suc n) rw =
     sha256_extend n ((sigma1 (rw ! 1) + rw ! 6 + sigma0 (rw ! 14) + rw ! 15) # rw)"

definition sha256_schedule :: "string \<Rightarrow> u32 list" where
  "sha256_schedule block = rev (sha256_extend 48 (rev (sha256_words block)))"

definition sha256_round :: "sha256_state \<Rightarrow> u32 \<times> u32 \<Rightarrow> sha256_state" where
  "sha256_round st kw =
     (case st of (a, b, c, d, e, f, g, h) \<Rightarrow>
        let t1 = h + Sigma1 e + Ch e f g + fst kw + snd kw;
            t2 = Sigma0 a + Maj a b c
        in (t1 + t2, a, b, c, d + t1, e, f, g))"

definition sha256_block :: "sha256_state \<Rightarrow> string \<Rightarrow> sha256_state" where
  "sha256_block st block =
     (case (st, foldl sha256_round st (zip sha256_K (sha256_schedule block))) of
        ((a, b, c, d, e, f, g, h), (a', b', c', d', e', f', g', h')) \<Rightarrow>
          (a + a', b + b', c + c', d + d', e + e', f + f', g + g', h + h'))"

fun sha256_blocks :: "nat \<Rightarrow> sha256_state \<Rightarrow> string \<Rightarrow> sha256_state" where
  "sha256_blocks 0 st msg = st"
| "sha256_blocks (Suc n) st msg = sha256_blocks n (sha256_block st (take 64 msg)) (drop 64 msg)"

definition sha256_Sum256 :: "string \<Rightarrow> string" where
  "sha256_Sum256 msg =
     (let padded = sha256_pad msg in
      case sha256_blocks (length padded div 64) sha256_init padded of
        (a, b, c, d, e, f, g, h) \<Rightarrow>
          concat (map (\<lambda>w. be_bytes 4 (unat w)) [a, b, c, d, e, f, g, h]))"

text \<open>
  A \<open>hash.Hash\<close> is modelled by the bytes written to it so far: \<open>Write\<close> adds bytes to the
  running hash, and \<open>Sum(nil)\<close> returns the digest of all the bytes written.
\<close>

type_synonym hasher = string

definition sha256_New :: hasher where
  "sha256_New = []"

definition hasher_Write :: "hasher \<Rightarrow> string \<Rightarrow> hasher" where
  "hasher_Write h p = h @ p"

definition hasher_Sum :: "hasher \<Rightarrow> string" where
  "hasher_Sum h = sha256_Sum256 h"

definition hextable :: string where
  "hextable = ''0123456789abcdef''"

definition hex_EncodeToString :: "string \<Rightarrow> string" where
  "hex_EncodeToString src =
     concat (map (\<lambda>c. [hextable ! (of_char c div 16), hextable ! (of_char c mod 16)]) src)"

section \<open>The manifest\<close>

type_synonym int64 = "64 word"

record File =
  Path :: string
  URL :: string
  Size :: int64
  SHA256 :: string
  Compression :: string

record Manifest =
  ArtifactID :: string
  Version :: string
  MountPath :: string
  Prefetch :: "string slice"
  Files :: "File slice"

section \<open>Errors\<close>

text \<open>
  \<open>oserr\<close> is an error of the operating system, as the packages os and io return it,
  with its message. \<open>Errorf msg w\<close> is the error \<open>fmt.Errorf\<close> makes: \<open>msg\<close> is the
  formatted text up to the verb \<open>%w\<close>, and \<open>w\<close> the error that verb wraps, if the format
  has one. \<open>NilDereference\<close> is the run-time panic of a method call on a nil
  \<open>os.FileInfo\<close>. \<open>SyntaxError\<close> and \<open>UnmarshalTypeError\<close> are the two errors of
  \<open>json.Unmarshal\<close>: malformed text, and a JSON value (described by the string) that
  does not fit the Go type of its field.
\<close>

datatype oserr = OsErr string

datatype error =
    OsError oserr
  | Errorf string "error option"
  | NilDereference
  | SyntaxError
  | UnmarshalTypeError string

section \<open>The file system\<close>

text \<open>
  The tree that \<open>os.Lstat\<close> and the reading of directories find at a path. A
  directory lists its entries in the order \<open>filepath.Walk\<close> visits them (by name);
  reading it may fail. A symbolic link records what \<open>os.Stat\<close> finds through it: an
  error, or whether the target is a directory. \<open>Plain\<close> is any other entry that is
  neither a directory nor a symbolic link, with the size \<open>Lstat\<close> reports.
  \<open>Unstatable\<close> is an entry on which \<open>Lstat\<close> fails.
\<close>

datatype node =
    Plain string int64
  | Symlink string "oserr + bool"
  | Directory string "oserr option" "node list"
  | Unstatable string oserr

record FileInfo =
  info_Name :: string
  info_IsDir :: bool
  info_ModeSymlink :: bool
  info_Size :: int64

text \<open>
  What reading an open file gives: the chunks of bytes that the successive reads
  return, and then either the end of the file or an error.
\<close>

datatype os_File = OpenFile "string list" "oserr option"

text \<open>
  The platform a program runs on: what is found at a path, what opening a file gives,
  and \<open>filepath.Join\<close> of two elements, which joins them by the separator and cleans
  the result, by rules that depend on the platform (volume names on Windows).
\<close>

record filesystem =
  lookup :: "string \<Rightarrow> node"
  os_Open :: "string \<Rightarrow> oserr + os_File"
  filepath_Join :: "string \<Rightarrow> string \<Rightarrow> string"

fun os_Lstat :: "node \<Rightarrow> oserr + FileInfo" where
  "os_Lstat (Plain name sz) =
     Inr \<lparr>info_Name = name, info_IsDir = False, info_ModeSymlink = False, info_Size = sz\<rparr>"
| "os_Lstat (Symlink name target) =
     Inr \<lparr>info_Name = name, info_IsDir = False, info_ModeSymlink = True, info_Size = 0\<rparr>"
| "os_Lstat (Directory name err entries) =
     Inr \<lparr>info_Name = name, info_IsDir = True, info_ModeSymlink = False, info_Size = 0\<rparr>"
| "os_Lstat (Unstatable name err) = Inl err"

fun os_Stat :: "node \<Rightarrow> oserr + FileInfo" where
  "os_Stat (Symlink name target) =
     (case target of
        Inl err \<Rightarrow> Inl err
      | Inr isdir \<Rightarrow>
          Inr \<lparr>info_Name = name, info_IsDir = isdir, info_ModeSymlink = False, info_Size = 0\<rparr>)"
| "os_Stat n = os_Lstat n"

fun node_name :: "node \<Rightarrow> string" where
  "node_name (Plain name sz) = name"
| "node_name (Symlink name target) = name"
| "node_name (Directory name err entries) = name"
| "node_name (Unstatable name err) = name"

text \<open>
  A path below the root of a walk is kept as the root and the names below it. \<open>Join\<close>
  adds a name; \<open>filepath.Rel\<close> from the root joins the names by the separator and gives
  \<open>.\<close> for the root itself, without an error. \<open>path_string\<close> is the string of the path,
  which the function of the walk and \<open>os.Open\<close> receive: the root as it was given, and
  below it what \<open>filepath.Join\<close> makes of the path of the directory and the name of the
  entry, at every level.
\<close>

type_synonym path = "string \<times> string list"

definition Join :: "path \<Rightarrow> string \<Rightarrow> path" where
  "Join p name = (fst p, snd p @ [name])"

fun join_sep :: "char \<Rightarrow> string list \<Rightarrow> string" where
  "join_sep c [] = []"
| "join_sep c [x] = x"
| "join_sep c (x # y # ys) = x @ c # join_sep c (y # ys)"

definition Rel :: "goos \<Rightarrow> string \<Rightarrow> path \<Rightarrow> string \<times> error option" where
  "Rel os basepath targpath =
     (if snd targpath = [] then (''.'', None)
      else (join_sep (Separator os) (snd targpath), None))"

definition path_string :: "filesystem \<Rightarrow> path \<Rightarrow> string" where
  "path_string fs p = foldl (filepath_Join fs) (fst p) (snd p)"

section \<open>hashFile\<close>

fun io_Copy :: "hasher \<Rightarrow> os_File \<Rightarrow> hasher \<times> oserr option" where
  "io_Copy dst (OpenFile chunks err) = (foldl hasher_Write dst chunks, err)"

definition hashFile :: "filesystem \<Rightarrow> string \<Rightarrow> string \<times> error option" where
  "hashFile fs path =
     (case os_Open fs path of
        Inl err \<Rightarrow> ([], Some (OsError err))
      | Inr file \<Rightarrow>
          (case io_Copy sha256_New file of
             (hasher, Some err) \<Rightarrow> ([], Some (OsError err))
           | (hasher, None) \<Rightarrow> (hex_EncodeToString (hasher_Sum hasher), None)))"

section \<open>filepath.Walk\<close>

text \<open>
  The function a walk calls on every entry, with the state it updates: the path, the
  \<open>FileInfo\<close> (nil where \<open>Lstat\<close> failed) and the error met on the entry. The function
  \<open>Generate\<close> passes never returns \<open>filepath.SkipDir\<close> or \<open>filepath.SkipAll\<close>, so the
  cases of the walk for these two values are left out.
\<close>

type_synonym 's WalkFunc = "'s \<Rightarrow> path \<Rightarrow> FileInfo option \<Rightarrow> oserr option \<Rightarrow> error option \<times> 's"

fun walk :: "'s WalkFunc \<Rightarrow> path \<Rightarrow> node \<Rightarrow> 's \<Rightarrow> error option \<times> 's"
  and walk_names :: "'s WalkFunc \<Rightarrow> path \<Rightarrow> node list \<Rightarrow> 's \<Rightarrow> error option \<times> 's" where
  "walk fn path (Directory name err entries) s =
     (case fn s path (Some \<lparr>info_Name = name, info_IsDir = True, info_ModeSymlink = False, info_Size = 0\<rparr>) err of
        (err1, s1) \<Rightarrow>
          if err \<noteq> None \<or> err1 \<noteq> None then (err1, s1)
          else walk_names fn path entries s1)"
| "walk fn path (Plain name sz) s =
     fn s path (Some \<lparr>info_Name = name, info_IsDir = False, info_ModeSymlink = False, info_Size = sz\<rparr>) None"
| "walk fn path (Symlink name target) s =
     fn s path (Some \<lparr>info_Name = name, info_IsDir = False, info_ModeSymlink = True, info_Size = 0\<rparr>) None"
| "walk fn path (Unstatable name err) s = fn s path None (Some err)"
| "walk_names fn path [] s = (None, s)"
| "walk_names fn path (entry # entries) s =
     (case walk fn (Join path (node_name entry)) entry s of
        (Some err, s1) \<Rightarrow> (Some err, s1)
      | (None, s1) \<Rightarrow> walk_names fn path entries s1)"

definition Walk :: "filesystem \<Rightarrow> string \<Rightarrow> 's WalkFunc \<Rightarrow> 's \<Rightarrow> error option \<times> 's" where
  "Walk fs root fn s = walk fn (root, []) (lookup fs root) s"

section \<open>Generate\<close>

text \<open>
  The function literal that \<open>Generate\<close> passes to \<open>filepath.Walk\<close>. It reads \<open>dir\<close> and
  the stripped \<open>urlPrefix\<close> and appends to \<open>manifest.Files\<close>; the manifest is its state.
\<close>

definition walkFn ::
  "goos \<Rightarrow> filesystem \<Rightarrow> string \<Rightarrow> string \<Rightarrow> Manifest WalkFunc" where
  "walkFn os fs dir urlPrefix manifest path info err =
     (case err of
        Some e \<Rightarrow> (Some (OsError e), manifest)
      | None \<Rightarrow>
         (case info of
            None \<Rightarrow> (Some NilDereference, manifest)
          | Some info \<Rightarrow>
              if info_IsDir info then (None, manifest)
              else if HasPrefix (info_Name info) ''.'' then (None, manifest)
              else if info_ModeSymlink info then (None, manifest)
              else
                (case Rel os dir path of
                   (relPath, Some err) \<Rightarrow>
                     (Some (Errorf ''failed to compute relative path: '' (Some err)), manifest)
                 | (relPath, None) \<Rightarrow>
                     (let relPath = ToSlash os relPath in
                      case hashFile fs (path_string fs path) of
                        (hash, Some err) \<Rightarrow>
                          (Some (Errorf (''failed to hash file '' @ relPath @ '': '') (Some err)),
                           manifest)
                      | (hash, None) \<Rightarrow>
                          (let fileURL = urlPrefix @ ''/'' @ relPath in
                           (None,
                            manifest\<lparr>Files :=
                              Some (elems (Files manifest) @
                                [\<lparr>Path = relPath, URL = fileURL, Size = info_Size info,
                                  SHA256 = hash, Compression = ''none''\<rparr>])\<rparr>))))))"

definition Generate ::
  "goos \<Rightarrow> filesystem \<Rightarrow> string \<Rightarrow> string \<Rightarrow> string \<Rightarrow> string \<Rightarrow> string slice
     \<Rightarrow> Manifest option \<times> error option" where
  "Generate os fs dir ident version urlPrefix prefetchPaths =
     (if ident = [] \<or> version = [] then
        (None, Some (Errorf ''id and version are required'' None))
      else
        (case os_Stat (lookup fs dir) of
           Inl err \<Rightarrow> (None, Some (Errorf ''cannot access directory: '' (Some (OsError err))))
         | Inr info \<Rightarrow>
             if \<not> info_IsDir info then
               (None, Some (Errorf (''path is not a directory: '' @ dir) None))
             else if \<not> HasPrefix urlPrefix ''http://'' \<and> \<not> HasPrefix urlPrefix ''https://'' then
               (None, Some (Errorf ''url-prefix must start with http:// or https://'' None))
             else
               (let urlPrefix1 = TrimSuffix urlPrefix ''/'';
                    manifest = \<lparr>ArtifactID = ident, Version = version,
                                MountPath = ''/mnt/mlmodel'',
                                Prefetch = normalizePrefetchPaths os prefetchPaths,
                                Files = Some []\<rparr>
                in case Walk fs dir (walkFn os fs dir urlPrefix1) manifest of
                     (Some err, manifest1) \<Rightarrow>
                       (None, Some (Errorf ''failed to walk directory: '' (Some err)))
                   | (None, manifest1) \<Rightarrow> (Some manifest1, None))))"

section \<open>Notions used to state the properties\<close>

text \<open>The segments of a slash-separated path, and whether a string has two slashes in a row.\<close>

fun splitOn :: "char \<Rightarrow> string \<Rightarrow> string list" where
  "splitOn c [] = [[]]"
| "splitOn c (x # xs) =
     (if x = c then [] # splitOn c xs
      else (case splitOn c xs of [] \<Rightarrow> [[x]] | seg # segs \<Rightarrow> (x # seg) # segs))"

fun double_slash :: "string \<Rightarrow> bool" where
  "double_slash (a # b # rest) = ((a = CHR ''/'' \<and> b = CHR ''/'') \<or> double_slash (b # rest))"
| "double_slash rest = False"

text \<open>
  The names a file system gives its entries: not empty, and free of the separator and of
  the slash. \<open>wf_root\<close> asks it of every entry below the root of a walk.
\<close>

definition wf_name :: "goos \<Rightarrow> string \<Rightarrow> bool" where
  "wf_name os name = (name \<noteq> [] \<and> Separator os \<notin> set name \<and> CHR ''/'' \<notin> set name)"

fun wf_entry :: "goos \<Rightarrow> node \<Rightarrow> bool" where
  "wf_entry os (Directory name err entries) = (wf_name os name \<and> list_all (wf_entry os) entries)"
| "wf_entry os n = wf_name os (node_name n)"

fun wf_root :: "goos \<Rightarrow> node \<Rightarrow> bool" where
  "wf_root os (Directory name err entries) = list_all (wf_entry os) entries"
| "wf_root os n = True"

text \<open>
  Whether an error is met in the walk of a tree: an entry on which \<open>Lstat\<close> fails, a
  directory that cannot be read, or a file that is hashed and whose hashing fails.
\<close>

fun walk_fails :: "goos \<Rightarrow> filesystem \<Rightarrow> path \<Rightarrow> node \<Rightarrow> bool"
  and walk_names_fails :: "goos \<Rightarrow> filesystem \<Rightarrow> path \<Rightarrow> node list \<Rightarrow> bool" where
  "walk_fails os fs p (Unstatable name err) = True"
| "walk_fails os fs p (Directory name err entries) = (err \<noteq> None \<or> walk_names_fails os fs p entries)"
| "walk_fails os fs p (Plain name sz) =
     (\<not> HasPrefix name ''.'' \<and> snd (hashFile fs (path_string fs p)) \<noteq> None)"
| "walk_fails os fs p (Symlink name target) = False"
| "walk_names_fails os fs p [] = False"
| "walk_names_fails os fs p (entry # entries) =
     (walk_fails os fs (Join p (node_name entry)) entry \<or> walk_names_fails os fs p entries)"

text \<open>
  The taxonomy of errors of the specification (its section 7), on the errors that the
  validation of \<open>Generate\<close> returns.
\<close>

datatype error_kind = ValidationError | FilesystemError

fun spec_error_kind :: "error \<Rightarrow> error_kind option" where
  "spec_error_kind (Errorf msg w) =
     (if msg = ''id and version are required'' \<and> w = None then Some ValidationError
      else if msg = ''url-prefix must start with http:// or https://'' \<and> w = None
        then Some ValidationError
      else if msg = ''cannot access directory: '' \<and> w \<noteq> None then Some FilesystemError
      else if prefix ''path is not a directory: '' msg \<and> w = None then Some FilesystemError
      else None)"
| "spec_error_kind e = None"

text \<open>
  The entries of a tree that are listed as files, in the order of the walk, each with the
  names from the root down to it and its size: every entry that is neither a directory
  nor a symbolic link and whose own name does not start with a dot. A directory is gone
  into whatever its name is.
\<close>

fun retained :: "string list \<Rightarrow> node \<Rightarrow> (string list \<times> int64) list"
  and retained_names :: "string list \<Rightarrow> node list \<Rightarrow> (string list \<times> int64) list" where
  "retained names (Plain name sz) = (if HasPrefix name ''.'' then [] else [(names, sz)])"
| "retained names (Symlink name target) = []"
| "retained names (Directory name err entries) = retained_names names entries"
| "retained names (Unstatable name err) = []"
| "retained_names names [] = []"
| "retained_names names (entry # entries) =
     retained (names @ [node_name entry]) entry @ retained_names names entries"

text \<open>The bytes of the file at a path, when it opens and reads to its end without an error.\<close>

definition file_bytes :: "filesystem \<Rightarrow> string \<Rightarrow> string option" where
  "file_bytes fs path =
     (case os_Open fs path of
        Inl err \<Rightarrow> None
      | Inr file \<Rightarrow>
          (case file of
             OpenFile chunks None \<Rightarrow> Some (concat chunks)
           | OpenFile chunks (Some err) \<Rightarrow> None))"

section \<open>Auxiliary notions of the proofs\<close>

text \<open>The \<open>FileInfo\<close> and the error with which a walk calls its function on an entry.\<close>

definition node_info :: "node \<Rightarrow> FileInfo option" where
  "node_info n = (case os_Lstat n of Inl err \<Rightarrow> None | Inr info \<Rightarrow> Some info)"

fun node_err :: "node \<Rightarrow> oserr option" where
  "node_err (Unstatable name err) = Some err"
| "node_err (Directory name err entries) = err"
| "node_err n = None"

text \<open>The manifest with which \<open>Generate\<close> starts the walk.\<close>

definition manifest0 :: "goos \<Rightarrow> string \<Rightarrow> string \<Rightarrow> string slice \<Rightarrow> Manifest" where
  "manifest0 os ident version prefetchPaths =
     \<lparr>ArtifactID = ident, Version = version, MountPath = ''/mnt/mlmodel'',
      Prefetch = normalizePrefetchPaths os prefetchPaths, Files = Some []\<rparr>"

text \<open>
  What holds of a path and the entry a walk visits there, below a root that \<open>os.Stat\<close>
  finds to be a directory and whose entries have well-formed names: the names of the path
  are well formed and end in the name of the entry; the root itself is a directory or a
  symbolic link.
\<close>

definition visit_ok :: "goos \<Rightarrow> path \<Rightarrow> node \<Rightarrow> bool" where
  "visit_ok os p n =
     (list_all (wf_name os) (snd p) \<and>
      (if snd p = [] then
         wf_root os n \<and>
         (case node_info n of None \<Rightarrow> True | Some i \<Rightarrow> info_IsDir i \<or> info_ModeSymlink i)
       else last (snd p) = node_name n \<and> wf_entry os n))"

text \<open>The paths of the files of a manifest are joined well-formed names, the last without a leading dot.\<close>

definition paths_ok :: "goos \<Rightarrow> Manifest \<Rightarrow> bool" where
  "paths_ok os m =
     (\<forall>f \<in> set (elems (Files m)).
        \<exists>names. names \<noteq> [] \<and> list_all (wf_name os) names \<and>
          \<not> HasPrefix (last names) ''.'' \<and> Path f = join_sep (CHR ''/'') names)"

text \<open>The record that \<open>Generate\<close> appends for a listed entry.\<close>

definition file_of :: "goos \<Rightarrow> filesystem \<Rightarrow> string \<Rightarrow> string \<Rightarrow> string list \<times> int64 \<Rightarrow> File" where
  "file_of os fs dir u x =
     \<lparr>Path = ToSlash os (join_sep (Separator os) (fst x)),
      URL = u @ ''/'' @ ToSlash os (join_sep (Separator os) (fst x)),
      Size = snd x,
      SHA256 = fst (hashFile fs (path_string fs (dir, fst x))),
      Compression = ''none''\<rparr>"

section \<open>filepath.Clean and filepath.Join on Unix\<close>

text \<open>
  The loop of \<open>filepath.Clean\<close> where the separator is the slash and there are no volume
  names. It reads the rest of the path and writes to \<open>out\<close>; \<open>dotdot\<close> is the length of
  \<open>out\<close> below which a \<open>..\<close> element must not remove anything. \<open>unwind\<close> is the removal of
  the last element of \<open>out\<close> for a \<open>..\<close> element, on the reversed buffer: the last byte
  goes, and then every byte up to and with the separator before it, down to \<open>dotdot\<close>.
\<close>

fun unwind :: "nat \<Rightarrow> string \<Rightarrow> string" where
  "unwind dotdot [] = []"
| "unwind dotdot (c # rs) =
     (if dotdot < length rs \<and> c \<noteq> CHR ''/'' then unwind dotdot rs else rs)"

function clean_loop :: "bool \<Rightarrow> nat \<Rightarrow> string \<Rightarrow> string \<Rightarrow> string" where
  "clean_loop rooted dotdot out [] = out"
| "clean_loop rooted dotdot out (c # cs) =
     (if c = CHR ''/'' then clean_loop rooted dotdot out cs
      else if c = CHR ''.'' \<and> (cs = [] \<or> hd cs = CHR ''/'') then clean_loop rooted dotdot out cs
      else if c = CHR ''.'' \<and> cs \<noteq> [] \<and> hd cs = CHR ''.'' \<and>
              (tl cs = [] \<or> hd (tl cs) = CHR ''/'') then
        (if dotdot < length out then
           clean_loop rooted dotdot (rev (unwind dotdot (rev out))) (tl cs)
         else if \<not> rooted then
           clean_loop rooted (length ((if out \<noteq> [] then out @ ''/'' else out) @ ''..''))
             ((if out \<noteq> [] then out @ ''/'' else out) @ ''..'') (tl cs)
         else clean_loop rooted dotdot out (tl cs))
      else
        clean_loop rooted dotdot
          ((if rooted \<and> length out \<noteq> 1 \<or> \<not> rooted \<and> out \<noteq> [] then out @ ''/'' else out) @
             takeWhile (\<lambda>x. x \<noteq> CHR ''/'') (c # cs))
          (dropWhile (\<lambda>x. x \<noteq> CHR ''/'') (c # cs)))"
  by pat_completeness auto
termination
proof (relation "measure (\<lambda>(rooted, dotdot, out, rest). length rest)")
  fix c :: char and cs :: string
  assume "c \<noteq> CHR ''/''"
  then have "dropWhile (\<lambda>x. x \<noteq> CHR ''/'') (c # cs) = dropWhile (\<lambda>x. x \<noteq> CHR ''/'') cs"
    by simp
  moreover have "length (dropWhile (\<lambda>x. x \<noteq> CHR ''/'') cs) \<le> length cs"
    by (rule length_dropWhile_le)
  ultimately show "((rooted, dotdot,
        (if rooted \<and> length out \<noteq> 1 \<or> \<not> rooted \<and> out \<noteq> [] then out @ ''/'' else out) @
          takeWhile (\<lambda>x. x \<noteq> CHR ''/'') (c # cs),
        dropWhile (\<lambda>x. x \<noteq> CHR ''/'') (c # cs)),
       rooted, dotdot, out, c # cs)
      \<in> measure (\<lambda>(rooted, dotdot, out, rest). length rest)"
    for rooted dotdot out
    by simp
qed (auto simp: less_Suc_eq_le)

text \<open>
  \<open>filepath.Clean\<close> on Unix: the empty path is \<open>.\<close>; a rooted path keeps its first slash;
  an empty result is \<open>.\<close>. \<open>filepath.Join\<close> of two elements on Unix leaves out an empty
  element, puts a slash between the two and cleans the result.
\<close>

definition Clean_unix :: "string \<Rightarrow> string" where
  "Clean_unix path =
     (if path = [] then ''.''
      else
        (let rooted = (hd path = CHR ''/'');
             out = (if rooted then clean_loop True 1 ''/'' (tl path)
                    else clean_loop False 0 [] path)
         in if out = [] then ''.'' else out))"

definition Join_unix :: "string \<Rightarrow> string \<Rightarrow> string" where
  "Join_unix a b =
     (if a \<noteq> [] then Clean_unix (a @ ''/'' @ b)
      else if b \<noteq> [] then Clean_unix b
      else [])"

section \<open>Example file systems\<close>

text \<open>
  A file system with one directory \<open>/data\<close>, whose tree is given. Every file opens and
  reads, in two chunks, as the five bytes \<open>test\<close> and a newline, but \<open>/data/locked.bin\<close>,
  which cannot be opened. Paths are joined as on Unix.
\<close>

definition test_bytes :: string where
  "test_bytes = [CHR ''t'', CHR ''e'', CHR ''s'', CHR ''t'', CHR 0x0A]"

definition example_fs :: "node \<Rightarrow> filesystem" where
  "example_fs root =
     \<lparr>lookup = (\<lambda>p. if p = ''/data'' then root
                     else Unstatable p (OsErr ''no such file or directory'')),
      os_Open = (\<lambda>p. if p = ''/data/locked.bin'' then Inl (OsErr ''permission denied'')
                      else Inr (OpenFile [''te'', [CHR ''s'', CHR ''t'', CHR 0x0A]] None)),
      filepath_Join = Join_unix\<rparr>"

definition tree_plain :: node where
  "tree_plain = Directory ''data'' None [Plain ''test.txt'' 5]"

definition tree_hidden :: node where
  "tree_hidden =
     Directory ''data'' None
       [Directory ''.git'' None [Plain ''config'' 5], Plain ''.hidden'' 5, Plain ''test.txt'' 5]"

definition tree_locked :: node where
  "tree_locked = Directory ''data'' None [Plain ''a.txt'' 5, Plain ''locked.bin'' 5]"

definition test_digest :: string where
  "test_digest = ''f2ca1bb6c7e907d06dafe4687e579fce76b37e4e93b7605022da52e6ccc26fd2''"

definition file_test_txt :: "string \<Rightarrow> File" where
  "file_test_txt url =
     \<lparr>Path = ''test.txt'', URL = url, Size = 5, SHA256 = test_digest, Compression = ''none''\<rparr>"

definition file_git_config :: File where
  "file_git_config =
     \<lparr>Path = ''.git/config'', URL = ''https://example.com/.git/config'', Size = 5,
      SHA256 = test_digest, Compression = ''none''\<rparr>"

definition manifest_of :: "File list \<Rightarrow> Manifest" where
  "manifest_of files =
     \<lparr>ArtifactID = ''test'', Version = ''v1'', MountPath = ''/mnt/mlmodel'', Prefetch = Some [],
      Files = Some files\<rparr>"

text \<open>
  A file system whose directory is given with a slash at its end, \<open>/data/\<close>, and in which
  only the path \<open>/data/test.txt\<close> opens: the file reads, in two chunks, as \<open>test\<close> and a
  newline.
\<close>

definition single_fs :: filesystem where
  "single_fs =
     \<lparr>lookup = (\<lambda>p. if p = ''/data/'' then tree_plain
                     else Unstatable p (OsErr ''no such file or directory'')),
      os_Open = (\<lambda>p. if p = ''/data/test.txt''
                      then Inr (OpenFile [''te'', [CHR ''s'', CHR ''t'', CHR 0x0A]] None)
                      else Inl (OsErr ''no such file or directory'')),
      filepath_Join = Join_unix\<rparr>"

section \<open>Library functions of package unicode/utf8\<close>

definition byte :: "char \<Rightarrow> nat" where
  "byte c = of_char c"

definition cont :: "char \<Rightarrow> bool" where
  "cont c = (0x80 \<le> byte c \<and> byte c \<le> 0xBF)"

text \<open>
  The size that \<open>utf8.DecodeRune\<close> returns at the head of a string when it holds a valid
  encoding there, and 0 where \<open>DecodeRune\<close> returns \<open>RuneError\<close> with the size 1 (or 0, for
  the empty string). The encodings that are too long, of a surrogate or above U+10FFFF
  are not valid.
\<close>

fun rune_len :: "string \<Rightarrow> nat" where
  "rune_len [] = 0"
| "rune_len (c # cs) =
     (let b = byte c in
      if b < 0x80 then 1
      else if 0xC2 \<le> b \<and> b \<le> 0xDF then
        (case cs of c1 # r \<Rightarrow> if cont c1 then 2 else 0 | _ \<Rightarrow> 0)
      else if 0xE0 \<le> b \<and> b \<le> 0xEF then
        (case cs of
           c1 # c2 # r \<Rightarrow>
             if (if b = 0xE0 then 0xA0 else 0x80) \<le> byte c1 \<and>
                byte c1 \<le> (if b = 0xED then 0x9F else 0xBF) \<and> cont c2
             then 3 else 0
         | _ \<Rightarrow> 0)
      else if 0xF0 \<le> b \<and> b \<le> 0xF4 then
        (case cs of
           c1 # c2 # c3 # r \<Rightarrow>
             if (if b = 0xF0 then 0x90 else 0x80) \<le> byte c1 \<and>
                byte c1 \<le> (if b = 0xF4 then 0x8F else 0xBF) \<and> cont c2 \<and> cont c3
             then 4 else 0
         | _ \<Rightarrow> 0)
      else 0)"

text \<open>\<open>utf8.AppendRune\<close>: the encoding of a code point, and of U+FFFD for one that has none.\<close>

definition replacement :: string where
  "replacement = [CHR 0xEF, CHR 0xBF, CHR 0xBD]"

definition EncodeRune :: "nat \<Rightarrow> string" where
  "EncodeRune r =
     (if r < 0x80 then [char_of r]
      else if r < 0x800 then [char_of (0xC0 + r div 64), char_of (0x80 + r mod 64)]
      else if (0xD800 \<le> r \<and> r < 0xE000) \<or> 0x10FFFF < r then replacement
      else if r < 0x10000 then
        [char_of (0xE0 + r div 4096), char_of (0x80 + r div 64 mod 64), char_of (0x80 + r mod 64)]
      else
        [char_of (0xF0 + r div 262144), char_of (0x80 + r div 4096 mod 64),
         char_of (0x80 + r div 64 mod 64), char_of (0x80 + r mod 64)])"

text \<open>A string is valid UTF-8 when it decodes without \<open>RuneError\<close> of size 1.\<close>

fun valid_utf8 :: "string \<Rightarrow> bool" where
  "valid_utf8 [] = True"
| "valid_utf8 (c # cs) =
     (rune_len (c # cs) \<noteq> 0 \<and> valid_utf8 (drop (rune_len (c # cs) - 1) cs))"

text \<open>A string with every byte that does not decode replaced by the encoding of U+FFFD.\<close>

fun utf8_coerce :: "string \<Rightarrow> string" where
  "utf8_coerce [] = []"
| "utf8_coerce (c # cs) =
     (if rune_len (c # cs) = 0 then replacement @ utf8_coerce cs
      else take (rune_len (c # cs)) (c # cs) @ utf8_coerce (drop (rune_len (c # cs) - 1) cs))"

section \<open>Library functions of package encoding/json: text\<close>

definition dquote :: char where
  "dquote = CHR 0x22"

definition bslash :: char where
  "bslash = CHR 0x5C"

definition hexdigit :: "nat \<Rightarrow> char" where
  "hexdigit n = hextable ! n"

text \<open>
  The encoding of a byte below 0x80 in a JSON string, with the escaping of HTML that
  \<open>json.Marshal\<close> applies: the printable characters stand for themselves, but the double
  quote and the backslash, which get a backslash, and \<open><\<close>, \<open>>\<close> and \<open>&\<close>, which are
  written as an escape with four hexadecimal digits, as the control characters without a short escape are.
\<close>

definition escape_ascii :: "char \<Rightarrow> string" where
  "escape_ascii c =
     (if c = dquote \<or> c = bslash then [bslash, c]
      else if c = CHR 0x08 then [bslash, CHR ''b'']
      else if c = CHR 0x0C then [bslash, CHR ''f'']
      else if c = CHR 0x0A then [bslash, CHR ''n'']
      else if c = CHR 0x0D then [bslash, CHR ''r'']
      else if c = CHR 0x09 then [bslash, CHR ''t'']
      else if byte c < 0x20 \<or> c = CHR ''<'' \<or> c = CHR ''>'' \<or> c = CHR ''&'' then
        [bslash, CHR ''u'', CHR ''0'', CHR ''0'', hexdigit (byte c div 16), hexdigit (byte c mod 16)]
      else [c])"

text \<open>
  The body of a JSON string as \<open>json.Marshal\<close> writes it: a byte that does not decode as
  UTF-8 becomes the escape of U+FFFD, the code points U+2028 and U+2029 are escaped, every other
  rune above 0x7F is copied.
\<close>

fun quote_body :: "string \<Rightarrow> string" where
  "quote_body [] = []"
| "quote_body (c # cs) =
     (if byte c < 0x80 then escape_ascii c @ quote_body cs
      else if rune_len (c # cs) = 0 then
        [bslash, CHR ''u'', CHR ''f'', CHR ''f'', CHR ''f'', CHR ''d''] @ quote_body cs
      else if take 3 (c # cs) = [CHR 0xE2, CHR 0x80, CHR 0xA8] then
        [bslash, CHR ''u'', CHR ''2'', CHR ''0'', CHR ''2'', CHR ''8''] @ quote_body (drop 2 cs)
      else if take 3 (c # cs) = [CHR 0xE2, CHR 0x80, CHR 0xA9] then
        [bslash, CHR ''u'', CHR ''2'', CHR ''0'', CHR ''2'', CHR ''9''] @ quote_body (drop 2 cs)
      else take (rune_len (c # cs)) (c # cs) @ quote_body (drop (rune_len (c # cs) - 1) cs))"

definition quote :: "string \<Rightarrow> string" where
  "quote s = dquote # quote_body s @ [dquote]"

text \<open>The value of a hexadecimal digit, in either case, and of four of them (\<open>getu4\<close>).\<close>

definition hexval :: "char \<Rightarrow> nat option" where
  "hexval c =
     (let b = byte c in
      if 0x30 \<le> b \<and> b \<le> 0x39 then Some (b - 0x30)
      else if 0x61 \<le> b \<and> b \<le> 0x66 then Some (b - 0x61 + 10)
      else if 0x41 \<le> b \<and> b \<le> 0x46 then Some (b - 0x41 + 10)
      else None)"

definition hex4 :: "char \<Rightarrow> char \<Rightarrow> char \<Rightarrow> char \<Rightarrow> nat option" where
  "hex4 a b c d =
     (case (hexval a, hexval b, hexval c, hexval d) of
        (Some x, Some y, Some z, Some w) \<Rightarrow> Some (((x * 16 + y) * 16 + z) * 16 + w)
      | _ \<Rightarrow> None)"

text \<open>
  A low surrogate written as an escape at the head of a string (\<open>getu4\<close> on what follows a
  high surrogate, with the test of \<open>utf16.DecodeRune\<close>).
\<close>

fun low_surrogate :: "string \<Rightarrow> nat option" where
  "low_surrogate (e # u # a # b # c # d # rest) =
     (if e = bslash \<and> u = CHR ''u'' then
        (case hex4 a b c d of
           Some r \<Rightarrow> if 0xDC00 \<le> r \<and> r < 0xE000 then Some r else None
         | None \<Rightarrow> None)
      else None)"
| "low_surrogate rest = None"

text \<open>
  The body of a JSON string read up to its closing quote, as the scanner accepts it and
  \<open>unquote\<close> decodes it: the decoded bytes and the text after the quote. A control
  character, an escape that is not one of JSON's and the end of the text before the quote
  are errors of syntax. A surrogate pair gives one code point, a surrogate alone U+FFFD;
  bytes that do not decode as UTF-8 give U+FFFD.
\<close>

fun unquote_body :: "string \<Rightarrow> (string \<times> string) option" where
  "unquote_body [] = None"
| "unquote_body (c # cs) =
     (if c = dquote then Some ([], cs)
      else if c = bslash then
        (case cs of
           [] \<Rightarrow> None
         | e # r \<Rightarrow>
             if e = CHR ''u'' then
               (case r of
                  a # b # c1 # d # r1 \<Rightarrow>
                    (case hex4 a b c1 d of
                       None \<Rightarrow> None
                     | Some rr \<Rightarrow>
                         if 0xD800 \<le> rr \<and> rr < 0xDC00 \<and> low_surrogate r1 \<noteq> None then
                           (case unquote_body (drop 6 r1) of
                              None \<Rightarrow> None
                            | Some (s, rest) \<Rightarrow>
                                Some (EncodeRune
                                        ((rr - 0xD800) * 1024 + (the (low_surrogate r1) - 0xDC00)
                                           + 0x10000) @ s, rest))
                         else
                           (case unquote_body r1 of
                              None \<Rightarrow> None
                            | Some (s, rest) \<Rightarrow> Some (EncodeRune rr @ s, rest)))
                | _ \<Rightarrow> None)
             else
               (case (if e = dquote \<or> e = bslash \<or> e = CHR ''/'' then Some e
                      else if e = CHR ''b'' then Some (CHR 0x08)
                      else if e = CHR ''f'' then Some (CHR 0x0C)
                      else if e = CHR ''n'' then Some (CHR 0x0A)
                      else if e = CHR ''r'' then Some (CHR 0x0D)
                      else if e = CHR ''t'' then Some (CHR 0x09)
                      else None) of
                  None \<Rightarrow> None
                | Some x \<Rightarrow>
                    (case unquote_body r of
                       None \<Rightarrow> None
                     | Some (s, rest) \<Rightarrow> Some (x # s, rest))))
      else if byte c < 0x20 then None
      else if byte c < 0x80 then
        (case unquote_body cs of None \<Rightarrow> None | Some (s, rest) \<Rightarrow> Some (c # s, rest))
      else if rune_len (c # cs) = 0 then
        (case unquote_body cs of
           None \<Rightarrow> None
         | Some (s, rest) \<Rightarrow> Some (replacement @ s, rest))
      else
        (case unquote_body (drop (rune_len (c # cs) - 1) cs) of
           None \<Rightarrow> None
         | Some (s, rest) \<Rightarrow> Some (take (rune_len (c # cs)) (c # cs) @ s, rest)))"

section \<open>Library functions of package strconv\<close>

definition is_digit :: "char \<Rightarrow> bool" where
  "is_digit c = (0x30 \<le> byte c \<and> byte c \<le> 0x39)"

definition digit :: "nat \<Rightarrow> char" where
  "digit n = char_of (0x30 + n)"

function show_nat :: "nat \<Rightarrow> string" where
  "show_nat n = (if n < 10 then [digit n] else show_nat (n div 10) @ [digit (n mod 10)])"
  by pat_completeness auto
termination
  by (relation "measure id") auto

declare show_nat.simps [simp del]

definition FormatInt :: "int \<Rightarrow> string" where
  "FormatInt i = (if i < 0 then CHR ''-'' # show_nat (nat (- i)) else show_nat (nat i))"

definition digits_value :: "string \<Rightarrow> nat" where
  "digits_value ds = foldl (\<lambda>a c. a * 10 + (byte c - 0x30)) 0 ds"

text \<open>
  \<open>strconv.ParseInt(s, 10, 64)\<close>: an optional sign and decimal digits, at least one; the
  value must fit 64 bits. \<open>None\<close> is its error.
\<close>

definition ParseInt :: "string \<Rightarrow> int option" where
  "ParseInt s =
     (let neg = (s \<noteq> [] \<and> hd s = CHR ''-'');
          ds = (if s \<noteq> [] \<and> (hd s = CHR ''-'' \<or> hd s = CHR ''+'') then tl s else s)
      in if ds = [] \<or> \<not> list_all is_digit ds then None
         else
           (let v = (if neg then - int (digits_value ds) else int (digits_value ds))
            in if - (2 ^ 63) \<le> v \<and> v < 2 ^ 63 then Some v else None))"

section \<open>Library functions of package encoding/json: values\<close>

text \<open>
  A JSON value. A number keeps its text, which is converted when it is stored into a Go
  value; a string and the keys of an object are held decoded.
\<close>

datatype json =
    JNull
  | JBool bool
  | JNumber string
  | JString string
  | JArray "json list"
  | JObject "(string \<times> json) list"

text \<open>
  The text of a value as \<open>json.MarshalIndent\<close> with the prefix \<open>""\<close> and the indent of two
  spaces writes it, at a depth of nesting: every element and member on a line of its own,
  a space after the colon, the empty array and the empty object closed at once.
\<close>

definition newline :: "nat \<Rightarrow> string" where
  "newline d = CHR 0x0A # replicate (2 * d) (CHR '' '')"

fun render :: "nat \<Rightarrow> json \<Rightarrow> string"
  and render_elems :: "nat \<Rightarrow> json list \<Rightarrow> string"
  and render_members :: "nat \<Rightarrow> (string \<times> json) list \<Rightarrow> string" where
  "render d JNull = ''null''"
| "render d (JBool b) = (if b then ''true'' else ''false'')"
| "render d (JNumber lit) = lit"
| "render d (JString s) = quote s"
| "render d (JArray vs) =
     (if vs = [] then ''[]''
      else ''['' @ newline (Suc d) @ render_elems (Suc d) vs @ newline d @ '']'')"
| "render d (JObject kvs) =
     (if kvs = [] then ''{}''
      else ''{'' @ newline (Suc d) @ render_members (Suc d) kvs @ newline d @ ''}'')"
| "render_elems d [] = []"
| "render_elems d (v # vs) =
     (if vs = [] then render d v
      else render d v @ '','' @ newline d @ render_elems d vs)"
| "render_members d [] = []"
| "render_members d (kv # kvs) =
     (if kvs = [] then quote (fst kv) @ '': '' @ render d (snd kv)
      else quote (fst kv) @ '': '' @ render d (snd kv) @ '','' @ newline d @ render_members d kvs)"

text \<open>The text of a number: JSON's grammar, the longest match. It returns the text and the rest.\<close>

definition scan_digits :: "string \<Rightarrow> (string \<times> string) option" where
  "scan_digits s =
     (if takeWhile is_digit s = [] then None
      else Some (takeWhile is_digit s, dropWhile is_digit s))"

definition scan_int :: "string \<Rightarrow> (string \<times> string) option" where
  "scan_int s =
     (case s of
        [] \<Rightarrow> None
      | c # r \<Rightarrow> if c = CHR ''0'' then Some (''0'', r) else scan_digits s)"

definition scan_frac :: "string \<Rightarrow> (string \<times> string) option" where
  "scan_frac s =
     (case s of
        [] \<Rightarrow> Some ([], s)
      | c # r \<Rightarrow>
          if c = CHR ''.'' then
            (case scan_digits r of None \<Rightarrow> None | Some (ds, rest) \<Rightarrow> Some (c # ds, rest))
          else Some ([], s))"

definition scan_exp :: "string \<Rightarrow> (string \<times> string) option" where
  "scan_exp s =
     (case s of
        [] \<Rightarrow> Some ([], s)
      | c # r \<Rightarrow>
          if c = CHR ''e'' \<or> c = CHR ''E'' then
            (case r of
               [] \<Rightarrow> None
             | g # r1 \<Rightarrow>
                 if g = CHR ''+'' \<or> g = CHR ''-'' then
                   (case scan_digits r1 of
                      None \<Rightarrow> None
                    | Some (ds, rest) \<Rightarrow> Some (c # g # ds, rest))
                 else
                   (case scan_digits r of
                      None \<Rightarrow> None
                    | Some (ds, rest) \<Rightarrow> Some (c # ds, rest)))
          else Some ([], s))"

definition scan_number :: "string \<Rightarrow> (string \<times> string) option" where
  "scan_number s =
     (let sign = (if s \<noteq> [] \<and> hd s = CHR ''-'' then ''-'' else [])
      in case scan_int (drop (length sign) s) of
           None \<Rightarrow> None
         | Some (i, r1) \<Rightarrow>
             (case scan_frac r1 of
                None \<Rightarrow> None
              | Some (f, r2) \<Rightarrow>
                  (case scan_exp r2 of
                     None \<Rightarrow> None
                   | Some (e, r3) \<Rightarrow> Some (sign @ i @ f @ e, r3))))"

text \<open>
  The scanner and the decoder read a text into a value. White space is the space, the
  tab, the carriage return and the line feed. Arrays and objects nest to the depth 10000
  at most. The first argument bounds the number of nested calls: every call reads at
  least one character, so one more than the length of the text is enough, and \<open>None\<close> is
  then an error of syntax.
\<close>

definition is_ws :: "char \<Rightarrow> bool" where
  "is_ws c = (c = CHR '' '' \<or> c = CHR 0x09 \<or> c = CHR 0x0D \<or> c = CHR 0x0A)"

definition skip_ws :: "string \<Rightarrow> string" where
  "skip_ws s = dropWhile is_ws s"

definition maxNestingDepth :: nat where
  "maxNestingDepth = 10000"

fun parse_value :: "nat \<Rightarrow> nat \<Rightarrow> string \<Rightarrow> (json \<times> string) option"
  and parse_elems :: "nat \<Rightarrow> nat \<Rightarrow> string \<Rightarrow> (json list \<times> string) option"
  and parse_members :: "nat \<Rightarrow> nat \<Rightarrow> string \<Rightarrow> ((string \<times> json) list \<times> string) option" where
  "parse_value 0 depth s = None"
| "parse_value (Suc fuel) depth s =
     (case s of
        [] \<Rightarrow> None
      | c # r \<Rightarrow>
          if c = CHR ''{'' then
            (if maxNestingDepth \<le> depth then None
             else
               (case skip_ws r of
                  [] \<Rightarrow> None
                | c1 # r1 \<Rightarrow>
                    if c1 = CHR ''}'' then Some (JObject [], r1)
                    else
                      (case parse_members fuel (Suc depth) (c1 # r1) of
                         None \<Rightarrow> None
                       | Some (kvs, rest) \<Rightarrow> Some (JObject kvs, rest))))
          else if c = CHR ''['' then
            (if maxNestingDepth \<le> depth then None
             else
               (case skip_ws r of
                  [] \<Rightarrow> None
                | c1 # r1 \<Rightarrow>
                    if c1 = CHR '']'' then Some (JArray [], r1)
                    else
                      (case parse_elems fuel (Suc depth) (c1 # r1) of
                         None \<Rightarrow> None
                       | Some (vs, rest) \<Rightarrow> Some (JArray vs, rest))))
          else if c = dquote then
            (case unquote_body r of
               None \<Rightarrow> None
             | Some (str, rest) \<Rightarrow> Some (JString str, rest))
          else if c = CHR ''-'' \<or> is_digit c then
            (case scan_number s of
               None \<Rightarrow> None
             | Some (lit, rest) \<Rightarrow> Some (JNumber lit, rest))
          else if prefix ''true'' s then Some (JBool True, drop 4 s)
          else if prefix ''false'' s then Some (JBool False, drop 5 s)
          else if prefix ''null'' s then Some (JNull, drop 4 s)
          else None)"
| "parse_elems 0 depth s = None"
| "parse_elems (Suc fuel) depth s =
     (case parse_value fuel depth s of
        None \<Rightarrow> None
      | Some (v, r) \<Rightarrow>
          (case skip_ws r of
             [] \<Rightarrow> None
           | c # r1 \<Rightarrow>
               if c = CHR '','' then
                 (case parse_elems fuel depth (skip_ws r1) of
                    None \<Rightarrow> None
                  | Some (vs, rest) \<Rightarrow> Some (v # vs, rest))
               else if c = CHR '']'' then Some ([v], r1)
               else None))"
| "parse_members 0 depth s = None"
| "parse_members (Suc fuel) depth s =
     (case s of
        [] \<Rightarrow> None
      | q # r \<Rightarrow>
          if q \<noteq> dquote then None
          else
            (case unquote_body r of
               None \<Rightarrow> None
             | Some (key, r1) \<Rightarrow>
                 (case skip_ws r1 of
                    [] \<Rightarrow> None
                  | c # r2 \<Rightarrow>
                      if c \<noteq> CHR '':'' then None
                      else
                        (case parse_value fuel depth (skip_ws r2) of
                           None \<Rightarrow> None
                         | Some (v, r3) \<Rightarrow>
                             (case skip_ws r3 of
                                [] \<Rightarrow> None
                              | c1 # r4 \<Rightarrow>
                                  if c1 = CHR '','' then
                                    (case parse_members fuel depth (skip_ws r4) of
                                       None \<Rightarrow> None
                                     | Some (kvs, rest) \<Rightarrow> Some ((key, v) # kvs, rest))
                                  else if c1 = CHR ''}'' then Some ([(key, v)], r4)
                                  else None)))))"

definition parse_json :: "string \<Rightarrow> json option" where
  "parse_json data =
     (case parse_value (Suc (length data)) 0 (skip_ws data) of
        None \<Rightarrow> None
      | Some (v, rest) \<Rightarrow> if skip_ws rest = [] then Some v else None)"

section \<open>Marshal\<close>

text \<open>
  The JSON value of a Go value: a struct is an object with its fields in order, under the
  names of their tags; a slice is an array, and \<open>null\<close> when it is nil; an \<open>int64\<close> is
  its decimal text.
\<close>

definition strings_json :: "string slice \<Rightarrow> json" where
  "strings_json xs = (case xs of None \<Rightarrow> JNull | Some ys \<Rightarrow> JArray (map JString ys))"

definition File_json :: "File \<Rightarrow> json" where
  "File_json f =
     JObject
       [(''path'', JString (Path f)),
        (''url'', JString (URL f)),
        (''size'', JNumber (FormatInt (sint (Size f)))),
        (''sha256'', JString (SHA256 f)),
        (''compression'', JString (Compression f))]"

definition Files_json :: "File slice \<Rightarrow> json" where
  "Files_json fs = (case fs of None \<Rightarrow> JNull | Some ys \<Rightarrow> JArray (map File_json ys))"

definition Manifest_json :: "Manifest \<Rightarrow> json" where
  "Manifest_json m =
     JObject
       [(''artifact_id'', JString (ArtifactID m)),
        (''version'', JString (Version m)),
        (''mount_path'', JString (MountPath m)),
        (''prefetch'', strings_json (Prefetch m)),
        (''files'', Files_json (Files m))]"

text \<open>\<open>Marshal\<close> takes a pointer; the nil pointer is written \<open>null\<close>. It has no error.\<close>

definition Marshal :: "Manifest option \<Rightarrow> string \<times> error option" where
  "Marshal m =
     (case m of
        None \<Rightarrow> (''null'', None)
      | Some v \<Rightarrow> (render 0 (Manifest_json v), None))"

section \<open>Load\<close>

text \<open>
  The name of a key as \<open>json.Unmarshal\<close> compares it with the names of the fields when no
  name is equal to the key: letters in upper case, and the two code points beyond ASCII
  that fold to a letter, U+017F to \<open>S\<close> and U+212A to \<open>K\<close>.
\<close>

fun foldName :: "string \<Rightarrow> string" where
  "foldName [] = []"
| "foldName (c # cs) =
     (if 0x61 \<le> byte c \<and> byte c \<le> 0x7A then char_of (byte c - 0x20) # foldName cs
      else if c = CHR 0xC5 \<and> take 1 cs = [CHR 0xBF] then CHR ''S'' # foldName (drop 1 cs)
      else if c = CHR 0xE2 \<and> take 2 cs = [CHR 0x84, CHR 0xAA] then CHR ''K'' # foldName (drop 2 cs)
      else c # foldName cs)"

definition field_of :: "string list \<Rightarrow> string \<Rightarrow> string option" where
  "field_of names key =
     (if key \<in> set names then Some key
      else find (\<lambda>n. foldName n = foldName key) names)"

definition json_kind :: "json \<Rightarrow> string" where
  "json_kind v =
     (case v of
        JNull \<Rightarrow> ''null''
      | JBool b \<Rightarrow> ''bool''
      | JNumber lit \<Rightarrow> ''number''
      | JString s \<Rightarrow> ''string''
      | JArray vs \<Rightarrow> ''array''
      | JObject kvs \<Rightarrow> ''object'')"

text \<open>
  The decoder keeps the first error of type it meets and goes on; it returns that error
  at the end. A decoding function takes the value of the field so far and the error kept
  so far, and returns both.
\<close>

definition saveError :: "error \<Rightarrow> error option \<Rightarrow> error option" where
  "saveError e saved = (case saved of None \<Rightarrow> Some e | Some first \<Rightarrow> Some first)"

definition decode_string :: "json \<Rightarrow> string \<times> error option \<Rightarrow> string \<times> error option" where
  "decode_string v st =
     (case v of
        JString s \<Rightarrow> (s, snd st)
      | JNull \<Rightarrow> st
      | _ \<Rightarrow> (fst st, saveError (UnmarshalTypeError (json_kind v)) (snd st)))"

definition decode_int64 :: "json \<Rightarrow> int64 \<times> error option \<Rightarrow> int64 \<times> error option" where
  "decode_int64 v st =
     (case v of
        JNumber lit \<Rightarrow>
          (case ParseInt lit of
             Some i \<Rightarrow> (word_of_int i, snd st)
           | None \<Rightarrow> (fst st, saveError (UnmarshalTypeError (''number '' @ lit)) (snd st)))
      | JNull \<Rightarrow> st
      | _ \<Rightarrow> (fst st, saveError (UnmarshalTypeError (json_kind v)) (snd st)))"

fun decode_File_members :: "(string \<times> json) list \<Rightarrow> File \<times> error option \<Rightarrow> File \<times> error option" where
  "decode_File_members [] st = st"
| "decode_File_members (kv # kvs) st =
     decode_File_members kvs
       (case field_of [''path'', ''url'', ''size'', ''sha256'', ''compression''] (fst kv) of
          None \<Rightarrow> st
        | Some name \<Rightarrow>
            if name = ''path'' then
              (case decode_string (snd kv) (Path (fst st), snd st) of
                 (x, e) \<Rightarrow> ((fst st)\<lparr>Path := x\<rparr>, e))
            else if name = ''url'' then
              (case decode_string (snd kv) (URL (fst st), snd st) of
                 (x, e) \<Rightarrow> ((fst st)\<lparr>URL := x\<rparr>, e))
            else if name = ''size'' then
              (case decode_int64 (snd kv) (Size (fst st), snd st) of
                 (x, e) \<Rightarrow> ((fst st)\<lparr>Size := x\<rparr>, e))
            else if name = ''sha256'' then
              (case decode_string (snd kv) (SHA256 (fst st), snd st) of
                 (x, e) \<Rightarrow> ((fst st)\<lparr>SHA256 := x\<rparr>, e))
            else
              (case decode_string (snd kv) (Compression (fst st), snd st) of
                 (x, e) \<Rightarrow> ((fst st)\<lparr>Compression := x\<rparr>, e)))"

definition decode_File :: "json \<Rightarrow> File \<times> error option \<Rightarrow> File \<times> error option" where
  "decode_File v st =
     (case v of
        JObject kvs \<Rightarrow> decode_File_members kvs st
      | JNull \<Rightarrow> st
      | _ \<Rightarrow> (fst st, saveError (UnmarshalTypeError (json_kind v)) (snd st)))"

definition zero_File :: File where
  "zero_File = \<lparr>Path = [], URL = [], Size = 0, SHA256 = [], Compression = []\<rparr>"

definition zero_Manifest :: Manifest where
  "zero_Manifest =
     \<lparr>ArtifactID = [], Version = [], MountPath = [], Prefetch = None, Files = None\<rparr>"

text \<open>The elements of an array, each decoded into the zero value of the element type.\<close>

fun decode_elems ::
  "(json \<Rightarrow> 'a \<times> error option \<Rightarrow> 'a \<times> error option) \<Rightarrow> 'a \<Rightarrow> json list \<Rightarrow> error option
     \<Rightarrow> 'a list \<times> error option" where
  "decode_elems dec zero [] err = ([], err)"
| "decode_elems dec zero (v # vs) err =
     (case dec v (zero, err) of
        (x, err1) \<Rightarrow>
          (case decode_elems dec zero vs err1 of
             (xs, err2) \<Rightarrow> (x # xs, err2)))"

text \<open>
  A slice takes \<open>null\<close> as nil and an array as its elements. An array decoded into a slice
  that is not nil reuses the memory of the slice, which is not modelled: \<open>None\<close> stands
  for this case, which arises only when two keys of one object name the same field.
\<close>

definition decode_slice ::
  "(json \<Rightarrow> 'a \<times> error option \<Rightarrow> 'a \<times> error option) \<Rightarrow> 'a \<Rightarrow> json
     \<Rightarrow> 'a slice \<times> error option \<Rightarrow> ('a slice \<times> error option) option" where
  "decode_slice dec zero v st =
     (case v of
        JNull \<Rightarrow> Some (None, snd st)
      | JArray vs \<Rightarrow>
          (case fst st of
             Some old \<Rightarrow> None
           | None \<Rightarrow>
               (case decode_elems dec zero vs (snd st) of
                  (xs, e) \<Rightarrow> Some (Some xs, e)))
      | _ \<Rightarrow> Some (fst st, saveError (UnmarshalTypeError (json_kind v)) (snd st)))"

fun decode_Manifest_members ::
  "(string \<times> json) list \<Rightarrow> Manifest \<times> error option \<Rightarrow> (Manifest \<times> error option) option" where
  "decode_Manifest_members [] st = Some st"
| "decode_Manifest_members (kv # kvs) st =
     (case
        (case field_of [''artifact_id'', ''version'', ''mount_path'', ''prefetch'', ''files'']
                (fst kv) of
           None \<Rightarrow> Some st
         | Some name \<Rightarrow>
             if name = ''artifact_id'' then
               (case decode_string (snd kv) (ArtifactID (fst st), snd st) of
                  (x, e) \<Rightarrow> Some ((fst st)\<lparr>ArtifactID := x\<rparr>, e))
             else if name = ''version'' then
               (case decode_string (snd kv) (Version (fst st), snd st) of
                  (x, e) \<Rightarrow> Some ((fst st)\<lparr>Version := x\<rparr>, e))
             else if name = ''mount_path'' then
               (case decode_string (snd kv) (MountPath (fst st), snd st) of
                  (x, e) \<Rightarrow> Some ((fst st)\<lparr>MountPath := x\<rparr>, e))
             else if name = ''prefetch'' then
               (case decode_slice decode_string [] (snd kv) (Prefetch (fst st), snd st) of
                  None \<Rightarrow> None
                | Some (x, e) \<Rightarrow> Some ((fst st)\<lparr>Prefetch := x\<rparr>, e))
             else
               (case decode_slice decode_File zero_File (snd kv) (Files (fst st), snd st) of
                  None \<Rightarrow> None
                | Some (x, e) \<Rightarrow> Some ((fst st)\<lparr>Files := x\<rparr>, e))) of
        None \<Rightarrow> None
      | Some st1 \<Rightarrow> decode_Manifest_members kvs st1)"

text \<open>
  \<open>json.Unmarshal\<close> into a \<open>Manifest\<close>: malformed text is an error of syntax and leaves the
  value as it was; \<open>null\<close> changes nothing; an object sets the fields its keys name, and
  any other value is an error of type.
\<close>

definition Unmarshal :: "string \<Rightarrow> Manifest \<Rightarrow> (Manifest \<times> error option) option" where
  "Unmarshal data m =
     (case parse_json data of
        None \<Rightarrow> Some (m, Some SyntaxError)
      | Some v \<Rightarrow>
          (case v of
             JObject kvs \<Rightarrow> decode_Manifest_members kvs (m, None)
           | JNull \<Rightarrow> Some (m, None)
           | _ \<Rightarrow> Some (m, Some (UnmarshalTypeError (json_kind v)))))"

definition os_ReadFile :: "filesystem \<Rightarrow> string \<Rightarrow> string \<times> oserr option" where
  "os_ReadFile fs path =
     (case os_Open fs path of
        Inl err \<Rightarrow> ([], Some err)
      | Inr (OpenFile chunks None) \<Rightarrow> (concat chunks, None)
      | Inr (OpenFile chunks (Some err)) \<Rightarrow> ([], Some err))"

definition Load :: "filesystem \<Rightarrow> string \<Rightarrow> (Manifest option \<times> error option) option" where
  "Load fs path =
     (case os_ReadFile fs path of
        (data, Some err) \<Rightarrow> Some (None, Some (OsError err))
      | (data, None) \<Rightarrow>
          (case Unmarshal data zero_Manifest of
             None \<Rightarrow> None
           | Some (m, Some err) \<Rightarrow> Some (None, Some err)
           | Some (m, None) \<Rightarrow> Some (Some m, None)))"

section \<open>Notions used to state the round trip\<close>

text \<open>A value with every string and key coerced to valid UTF-8, as a round trip leaves it.\<close>

fun coerce_json :: "json \<Rightarrow> json" where
  "coerce_json (JString s) = JString (utf8_coerce s)"
| "coerce_json (JArray vs) = JArray (map coerce_json vs)"
| "coerce_json (JObject kvs) = JObject (map (\<lambda>kv. (utf8_coerce (fst kv), coerce_json (snd kv))) kvs)"
| "coerce_json v = v"

definition coerce_File :: "File \<Rightarrow> File" where
  "coerce_File f =
     \<lparr>Path = utf8_coerce (Path f), URL = utf8_coerce (URL f), Size = Size f,
      SHA256 = utf8_coerce (SHA256 f), Compression = utf8_coerce (Compression f)\<rparr>"

definition coerce_Manifest :: "Manifest \<Rightarrow> Manifest" where
  "coerce_Manifest m =
     \<lparr>ArtifactID = utf8_coerce (ArtifactID m), Version = utf8_coerce (Version m),
      MountPath = utf8_coerce (MountPath m),
      Prefetch = map_option (map utf8_coerce) (Prefetch m),
      Files = map_option (map coerce_File) (Files m)\<rparr>"

text \<open>A manifest all of whose strings are valid UTF-8.\<close>

definition valid_File :: "File \<Rightarrow> bool" where
  "valid_File f =
     (valid_utf8 (Path f) \<and> valid_utf8 (URL f) \<and> valid_utf8 (SHA256 f) \<and>
      valid_utf8 (Compression f))"

definition valid_Manifest :: "Manifest \<Rightarrow> bool" where
  "valid_Manifest m =
     (valid_utf8 (ArtifactID m) \<and> valid_utf8 (Version m) \<and> valid_utf8 (MountPath m) \<and>
      list_all valid_utf8 (elems (Prefetch m)) \<and> list_all valid_File (elems (Files m)))"

text \<open>
  The values whose numbers are integers as \<open>strconv\<close> writes them, and the depth of
  nesting of a value.
\<close>

fun wf_json :: "json \<Rightarrow> bool" where
  "wf_json (JNumber lit) = (\<exists>i. lit = FormatInt i)"
| "wf_json (JArray vs) = list_all wf_json vs"
| "wf_json (JObject kvs) = list_all (\<lambda>kv. wf_json (snd kv)) kvs"
| "wf_json v = True"

fun jdepth :: "json \<Rightarrow> nat" where
  "jdepth (JArray vs) = Suc (foldr max (map jdepth vs) 0)"
| "jdepth (JObject kvs) = Suc (foldr max (map (\<lambda>kv. jdepth (snd kv)) kvs) 0)"
| "jdepth v = 0"

text \<open>What may follow a value in a text: nothing, white space, a comma or a closing bracket.\<close>

definition ends_value :: "string \<Rightarrow> bool" where
  "ends_value rest =
     (rest = [] \<or> is_ws (hd rest) \<or> hd rest = CHR '','' \<or> hd rest = CHR '']'' \<or>
      hd rest = CHR ''}'')"


section \<open>Example manifests on disk\<close>

text \<open>A file system whose only file is \<open>manifest.json\<close>, read in one chunk.\<close>

definition text_fs :: "string \<Rightarrow> filesystem" where
  "text_fs data =
     \<lparr>lookup = (\<lambda>p. Unstatable p (OsErr ''no such file or directory'')),
      os_Open = (\<lambda>p. if p = ''manifest.json'' then Inr (OpenFile [data] None)
                      else Inl (OsErr ''no such file or directory'')),
      filepath_Join = Join_unix\<rparr>"

text \<open>
  A directory with one file, whose name is \<open>e.bin\<close> with an acute accent on the first letter
  in the encoding ISO 8859-1: the byte \<open>0xE9\<close>, which is not UTF-8 before a full stop. The
  manifest of this directory, and the manifest with the byte replaced by the three bytes
  of U+FFFD.
\<close>

definition latin1_name :: string where
  "latin1_name = CHR 0xE9 # ''.bin''"

definition replaced_name :: string where
  "replaced_name = CHR 0xEF # CHR 0xBF # CHR 0xBD # ''.bin''"

definition tree_latin1 :: node where
  "tree_latin1 = Directory ''data'' None [Plain latin1_name 5]"

definition manifest_named :: "string \<Rightarrow> Manifest" where
  "manifest_named name =
     \<lparr>ArtifactID = ''test'', Version = ''v1'', MountPath = ''/mnt/mlmodel'', Prefetch = Some [],
      Files = Some [\<lparr>Path = name, URL = ''https://example.com/'' @ name, Size = 5,
                     SHA256 = test_digest, Compression = ''none''\<rparr>]\<rparr>"


section \<open>Properties of the white-space trimming and of ToSlash\<close>

lemma normalize_loop_eq:
  "normalize_loop os acc xs =
     acc @ map (\<lambda>p. ToSlash os (TrimSpace p)) (filter (\<lambda>p. TrimSpace p \<noteq> []) xs)"
  by (induction xs arbitrary: acc) (simp_all add: Let_def)

lemma leading_space_None_iff:
  "leading_space s = None \<longleftrightarrow> (\<forall>t \<in> set space_runes. \<not> prefix t s)"
  by (auto simp: leading_space_def find_None_iff)

lemma trailing_space_None_iff:
  "trailing_space s = None \<longleftrightarrow> (\<forall>t \<in> set space_runes. \<not> suffix t s)"
  by (auto simp: trailing_space_def find_None_iff)

lemma TrimLeftSpace_no_leading: "leading_space (TrimLeftSpace s) = None"
proof (induction s rule: TrimLeftSpace.induct)
  case (1 s)
  show ?case
  proof (cases "leading_space s")
    case None
    then show ?thesis by (simp add: TrimLeftSpace.simps [of s])
  next
    case (Some t)
    with 1 show ?thesis by (simp add: TrimLeftSpace.simps [of s])
  qed
qed

lemma TrimRightSpace_no_trailing: "trailing_space (TrimRightSpace s) = None"
proof (induction s rule: TrimRightSpace.induct)
  case (1 s)
  show ?case
  proof (cases "trailing_space s")
    case None
    then show ?thesis by (simp add: TrimRightSpace.simps [of s])
  next
    case (Some t)
    with 1 show ?thesis by (simp add: TrimRightSpace.simps [of s])
  qed
qed

lemma TrimLeftSpace_decomp:
  "\<exists>l. set l \<subseteq> set space_runes \<and> s = concat l @ TrimLeftSpace s"
proof (induction s rule: TrimLeftSpace.induct)
  case (1 s)
  show ?case
  proof (cases "leading_space s")
    case None
    then have "set [] \<subseteq> set space_runes \<and> s = concat [] @ TrimLeftSpace s"
      by (simp add: TrimLeftSpace.simps [of s])
    then show ?thesis by blast
  next
    case (Some t)
    then have t: "t \<in> set space_runes" "prefix t s"
      using leading_space_Some by blast+
    from 1 [OF Some] obtain l where
      l: "set l \<subseteq> set space_runes" "drop (length t) s = concat l @ TrimLeftSpace (drop (length t) s)"
      by blast
    have s: "s = t @ drop (length t) s"
      using t(2) by (metis append_eq_conv_conj prefixE)
    have "TrimLeftSpace s = TrimLeftSpace (drop (length t) s)"
      using Some by (simp add: TrimLeftSpace.simps [of s])
    then have "set (t # l) \<subseteq> set space_runes \<and> s = concat (t # l) @ TrimLeftSpace s"
      using t(1) l s by simp
    then show ?thesis by blast
  qed
qed

lemma TrimRightSpace_decomp:
  "\<exists>r. set r \<subseteq> set space_runes \<and> s = TrimRightSpace s @ concat r"
proof (induction s rule: TrimRightSpace.induct)
  case (1 s)
  show ?case
  proof (cases "trailing_space s")
    case None
    then have "set [] \<subseteq> set space_runes \<and> s = TrimRightSpace s @ concat []"
      by (simp add: TrimRightSpace.simps [of s])
    then show ?thesis by blast
  next
    case (Some t)
    then have t: "t \<in> set space_runes" "suffix t s"
      using trailing_space_Some by blast+
    from 1 [OF Some] obtain r where
      r: "set r \<subseteq> set space_runes"
         "take (length s - length t) s = TrimRightSpace (take (length s - length t) s) @ concat r"
      by blast
    have s: "s = take (length s - length t) s @ t"
      using t(2) by (auto simp: suffix_def)
    have eq: "TrimRightSpace s = TrimRightSpace (take (length s - length t) s)"
      using Some by (simp add: TrimRightSpace.simps [of s])
    have "s = TrimRightSpace s @ concat (r @ [t])"
      using r(2) s eq by (metis append.assoc concat.simps concat_append append_Nil2)
    then have "set (r @ [t]) \<subseteq> set space_runes \<and> s = TrimRightSpace s @ concat (r @ [t])"
      using t(1) r(1) by simp
    then show ?thesis by blast
  qed
qed

lemma TrimRightSpace_prefix: "prefix (TrimRightSpace s) s"
  using TrimRightSpace_decomp [of s] by (metis prefixI)

lemma TrimLeftSpace_id: "leading_space s = None \<Longrightarrow> TrimLeftSpace s = s"
  by (simp add: TrimLeftSpace.simps [of s])

lemma TrimRightSpace_id: "trailing_space s = None \<Longrightarrow> TrimRightSpace s = s"
  by (simp add: TrimRightSpace.simps [of s])

lemma TrimSpace_no_leading: "leading_space (TrimSpace s) = None"
proof -
  have "\<not> prefix t (TrimRightSpace (TrimLeftSpace s))" if "t \<in> set space_runes" for t
  proof
    assume "prefix t (TrimRightSpace (TrimLeftSpace s))"
    then have "prefix t (TrimLeftSpace s)"
      using TrimRightSpace_prefix prefix_order.trans by blast
    with that TrimLeftSpace_no_leading [of s] show False
      by (simp add: leading_space_None_iff)
  qed
  then show ?thesis by (simp add: TrimSpace_def leading_space_None_iff)
qed

lemma TrimSpace_no_trailing: "trailing_space (TrimSpace s) = None"
  by (simp add: TrimSpace_def TrimRightSpace_no_trailing)

lemma TrimSpace_id:
  "leading_space s = None \<Longrightarrow> trailing_space s = None \<Longrightarrow> TrimSpace s = s"
  by (simp add: TrimSpace_def TrimLeftSpace_id TrimRightSpace_id)

lemma TrimSpace_decomp:
  "\<exists>l r. set l \<subseteq> set space_runes \<and> set r \<subseteq> set space_runes \<and>
     s = concat l @ TrimSpace s @ concat r"
proof -
  obtain l where l: "set l \<subseteq> set space_runes" "s = concat l @ TrimLeftSpace s"
    using TrimLeftSpace_decomp by blast
  obtain r where r: "set r \<subseteq> set space_runes"
      "TrimLeftSpace s = TrimRightSpace (TrimLeftSpace s) @ concat r"
    using TrimRightSpace_decomp by blast
  have "s = concat l @ TrimSpace s @ concat r"
    using l(2) r(2) by (simp add: TrimSpace_def)
  with l(1) r(1) show ?thesis by blast
qed


lemma space_runes_no_sep:
  "t \<in> set space_runes \<Longrightarrow> CHR ''/'' \<notin> set t \<and> CHR 0x5C \<notin> set t"
  by (auto simp: space_runes_def)

lemma map_subst_eq_iff:
  "a \<notin> set t \<Longrightarrow> b \<notin> set t \<Longrightarrow> (map (\<lambda>c. if c = a then b else c) u = t) = (u = t)"
proof (induction u arbitrary: t)
  case Nil
  then show ?case by auto
next
  case (Cons x u)
  then show ?case by (cases t) auto
qed

lemma ToSlash_eq_map:
  "ToSlash os p = map (\<lambda>c. if c = Separator os then CHR ''/'' else c) p"
  by (simp add: ToSlash_def map_idI)

lemma Separator_cases: "Separator os = CHR ''/'' \<or> Separator os = CHR 0x5C"
  by (cases os) (simp_all add: Separator_def)

lemma prefix_iff_take: "prefix t s \<longleftrightarrow> take (length t) s = t"
proof
  assume "prefix t s"
  then show "take (length t) s = t" by (auto simp: prefix_def)
next
  assume "take (length t) s = t"
  then show "prefix t s" by (metis take_is_prefix)
qed

lemma prefix_map_subst:
  assumes "a \<notin> set t" "b \<notin> set t"
  shows "prefix t (map (\<lambda>c. if c = a then b else c) s) = prefix t s"
proof -
  have "prefix t (map (\<lambda>c. if c = a then b else c) s)
      \<longleftrightarrow> map (\<lambda>c. if c = a then b else c) (take (length t) s) = t"
    by (simp add: prefix_iff_take take_map)
  also have "\<dots> \<longleftrightarrow> take (length t) s = t"
    using assms by (rule map_subst_eq_iff)
  finally show ?thesis by (simp add: prefix_iff_take)
qed

lemma prefix_ToSlash:
  assumes "t \<in> set space_runes"
  shows "prefix t (ToSlash os s) = prefix t s"
proof -
  have "Separator os \<notin> set t" "CHR ''/'' \<notin> set t"
    using space_runes_no_sep [OF assms] Separator_cases [of os] by auto
  then show ?thesis by (simp add: ToSlash_eq_map prefix_map_subst)
qed

lemma suffix_ToSlash:
  assumes "t \<in> set space_runes"
  shows "suffix t (ToSlash os s) = suffix t s"
proof -
  have "Separator os \<notin> set (rev t)" "CHR ''/'' \<notin> set (rev t)"
    using space_runes_no_sep [OF assms] Separator_cases [of os] by auto
  then have "prefix (rev t) (map (\<lambda>c. if c = Separator os then CHR ''/'' else c) (rev s))
     = prefix (rev t) (rev s)"
    by (rule prefix_map_subst)
  then show ?thesis by (simp add: ToSlash_eq_map suffix_to_prefix rev_map)
qed

lemma leading_space_ToSlash: "(leading_space (ToSlash os s) = None) = (leading_space s = None)"
  by (simp add: leading_space_None_iff prefix_ToSlash)

lemma trailing_space_ToSlash: "(trailing_space (ToSlash os s) = None) = (trailing_space s = None)"
  by (simp add: trailing_space_None_iff suffix_ToSlash)

lemma ToSlash_idem: "ToSlash os (ToSlash os p) = ToSlash os p"
  by (simp add: ToSlash_eq_map)

lemma ToSlash_Nil_iff: "(ToSlash os p = []) = (p = [])"
  by (simp add: ToSlash_eq_map)

lemma TrimSpace_ToSlash_TrimSpace: "TrimSpace (ToSlash os (TrimSpace p)) = ToSlash os (TrimSpace p)"
  by (rule TrimSpace_id)
     (simp_all add: leading_space_ToSlash trailing_space_ToSlash TrimSpace_no_leading TrimSpace_no_trailing)

lemma normalize_loop_idem:
  "normalize_loop os [] (normalize_loop os [] xs) = normalize_loop os [] xs"
  by (induction xs)
     (simp_all add: normalize_loop_eq TrimSpace_ToSlash_TrimSpace ToSlash_Nil_iff ToSlash_idem)

section \<open>normalizePrefetchPaths: what it computes\<close>

text \<open>
  C8. \<open>normalizePrefetchPaths\<close> is a total function: for every input it returns a slice
  that is not nil, which holds, in the order of the input, the elements that are not
  empty after trimming, each trimmed and with every separator replaced by a slash; for
  the nil slice it returns the empty slice. Trimming removes white space only, from both
  ends, and leaves none at either end.
\<close>

theorem normalizePrefetchPaths_spec:
  "normalizePrefetchPaths os paths =
     Some (map (\<lambda>p. map (\<lambda>c. if c = Separator os then CHR ''/'' else c) (TrimSpace p))
            (filter (\<lambda>p. TrimSpace p \<noteq> []) (elems paths)))
   \<and> normalizePrefetchPaths os None = Some []
   \<and> leading_space (TrimSpace s) = None \<and> trailing_space (TrimSpace s) = None
   \<and> (\<exists>l r. set l \<subseteq> set space_runes \<and> set r \<subseteq> set space_runes \<and>
         s = concat l @ TrimSpace s @ concat r)"
proof -
  have "normalizePrefetchPaths os paths =
     Some (map (\<lambda>p. map (\<lambda>c. if c = Separator os then CHR ''/'' else c) (TrimSpace p))
            (filter (\<lambda>p. TrimSpace p \<noteq> []) (elems paths)))"
    by (simp add: normalizePrefetchPaths_def normalize_loop_eq ToSlash_eq_map)
  moreover have "normalizePrefetchPaths os None = Some []"
    by (simp add: normalizePrefetchPaths_def elems_def)
  moreover have "leading_space (TrimSpace s) = None" "trailing_space (TrimSpace s) = None"
    by (rule TrimSpace_no_leading, rule TrimSpace_no_trailing)
  moreover have "\<exists>l r. set l \<subseteq> set space_runes \<and> set r \<subseteq> set space_runes \<and>
         s = concat l @ TrimSpace s @ concat r"
    by (rule TrimSpace_decomp)
  ultimately show ?thesis by blast
qed

lemma TrimSpace_config: "TrimSpace '' config.json '' = ''config.json''"
  by code_simp

lemma TrimSpace_tokenizer: "TrimSpace ''  tokenizer.json'' = ''tokenizer.json''"
  by code_simp

theorem normalizePrefetchPaths_spec_witness:
  "normalizePrefetchPaths Unix (Some ['' config.json '', ''  tokenizer.json''])
     = Some [''config.json'', ''tokenizer.json'']
   \<and> normalizePrefetchPaths Unix None = Some []"
  using normalizePrefetchPaths_spec [of Unix "Some ['' config.json '', ''  tokenizer.json'']" "[]"]
  by (simp add: elems_def TrimSpace_config TrimSpace_tokenizer Separator_def)

text \<open>
  C9. \<open>normalizePrefetchPaths\<close> is idempotent: applied to its own result, it returns
  that result.
\<close>

theorem normalizePrefetchPaths_idempotent:
  "normalizePrefetchPaths os (normalizePrefetchPaths os xs) = normalizePrefetchPaths os xs"
  by (simp add: normalizePrefetchPaths_def elems_def normalize_loop_idem)

lemma normalize_example:
  "normalizePrefetchPaths Windows (Some ['' a'' @ [CHR 0x5C] @ ''b '', ''  '', ''c''])
     = Some [''a/b'', ''c'']"
  by code_simp

theorem normalizePrefetchPaths_idempotent_witness:
  "normalizePrefetchPaths Windows (Some [''a/b'', ''c'']) = Some [''a/b'', ''c'']"
  using normalizePrefetchPaths_idempotent [of Windows "Some ['' a'' @ [CHR 0x5C] @ ''b '', ''  '', ''c'']"]
  by (simp only: normalize_example)

section \<open>Evaluation of SHA-256\<close>

lemma sha256_extend_numeral:
  "sha256_extend (numeral k) rw =
     sha256_extend (pred_numeral k) ((sigma1 (rw ! 1) + rw ! 6 + sigma0 (rw ! 14) + rw ! 15) # rw)"
  by (simp add: numeral_eq_Suc)

text \<open>
  Equations that keep the numerals of an evaluation below \<open>2 ^ 32\<close>: reading a word as a
  natural number and back changes nothing, and reduces a numeral.
\<close>

lemma rotr_norm: "rotr n x = word_of_nat (unat (drop_bit n x OR push_bit (32 - n) x))"
  by (simp add: rotr_def)

lemma sha256_round_norm:
  "sha256_round (a, b, c, d, e, f, g, h) (k, w) =
     (let t1 = word_of_nat (unat (h + Sigma1 e + Ch e f g + k + w));
          t2 = word_of_nat (unat (Sigma0 a + Maj a b c))
      in (word_of_nat (unat (t1 + t2)), a, b, c, word_of_nat (unat (d + t1)), e, f, g))"
  by (simp add: sha256_round_def)

lemma replicate_numeral: "replicate (numeral k) x = x # replicate (pred_numeral k) x"
  by (simp add: numeral_eq_Suc)

lemmas sha256_eval =
  sha256_Sum256_def sha256_pad_def be_bytes_def upt_rec replicate_numeral char_of_def
  bit_Suc_0_iff sha256_block_def sha256_schedule_def be_word_def sha256_extend_numeral
  sigma0_def sigma1_def Sigma0_def Sigma1_def Ch_def Maj_def rotr_norm sha256_round_norm
  sha256_init_def sha256_K_def

lemma sha256_Sum256_test:
  "sha256_Sum256 [CHR ''t'', CHR ''e'', CHR ''s'', CHR ''t'', CHR 0x0A] =
     [CHR 0xF2, CHR 0xCA, CHR 0x1B, CHR 0xB6, CHR 0xC7, CHR 0xE9, CHR 0x07, CHR 0xD0,
      CHR 0x6D, CHR 0xAF, CHR 0xE4, CHR 0x68, CHR 0x7E, CHR 0x57, CHR 0x9F, CHR 0xCE,
      CHR 0x76, CHR 0xB3, CHR 0x7E, CHR 0x4E, CHR 0x93, CHR 0xB7, CHR 0x60, CHR 0x50,
      CHR 0x22, CHR 0xDA, CHR 0x52, CHR 0xE6, CHR 0xCC, CHR 0xC2, CHR 0x6F, CHR 0xD2]"
  by (simp add: sha256_eval)

lemma hex_test:
  "hex_EncodeToString
     [CHR 0xF2, CHR 0xCA, CHR 0x1B, CHR 0xB6, CHR 0xC7, CHR 0xE9, CHR 0x07, CHR 0xD0,
      CHR 0x6D, CHR 0xAF, CHR 0xE4, CHR 0x68, CHR 0x7E, CHR 0x57, CHR 0x9F, CHR 0xCE,
      CHR 0x76, CHR 0xB3, CHR 0x7E, CHR 0x4E, CHR 0x93, CHR 0xB7, CHR 0x60, CHR 0x50,
      CHR 0x22, CHR 0xDA, CHR 0x52, CHR 0xE6, CHR 0xCC, CHR 0xC2, CHR 0x6F, CHR 0xD2] =
   ''f2ca1bb6c7e907d06dafe4687e579fce76b37e4e93b7605022da52e6ccc26fd2''"
  by (simp add: hex_EncodeToString_def hextable_def)

section \<open>What the walk function of Generate does on one entry\<close>

lemma walkFn_error: "walkFn os fs dir u m p info (Some e) = (Some (OsError e), m)"
  by (simp add: walkFn_def)

lemma walkFn_skip:
  "info_IsDir i \<or> HasPrefix (info_Name i) ''.'' \<or> info_ModeSymlink i
     \<Longrightarrow> walkFn os fs dir u m p (Some i) None = (None, m)"
  by (auto simp: walkFn_def)

lemma walkFn_hash_error:
  assumes "\<not> info_IsDir i" "\<not> HasPrefix (info_Name i) ''.''" "\<not> info_ModeSymlink i"
    and "snd (hashFile fs (path_string fs p)) \<noteq> None"
  shows "fst (walkFn os fs dir u m p (Some i) None) \<noteq> None"
  using assms by (auto simp: walkFn_def Rel_def Let_def split: prod.splits option.splits)

lemma walkFn_append:
  assumes "\<not> info_IsDir i" "\<not> HasPrefix (info_Name i) ''.''" "\<not> info_ModeSymlink i"
    and "snd (hashFile fs (path_string fs p)) = None"
  shows "walkFn os fs dir u m p (Some i) None =
    (None, m\<lparr>Files := Some (elems (Files m) @
       [\<lparr>Path = ToSlash os (fst (Rel os dir p)),
         URL = u @ ''/'' @ ToSlash os (fst (Rel os dir p)),
         Size = info_Size i,
         SHA256 = fst (hashFile fs (path_string fs p)),
         Compression = ''none''\<rparr>])\<rparr>)"
  using assms by (auto simp: walkFn_def Rel_def Let_def split: prod.splits option.splits)

text \<open>
  Every call leaves the manifest as it is or appends one file, and it appends only for an
  entry that is not a directory, not a symbolic link, and whose name has no leading dot.
\<close>

lemma walkFn_result:
  assumes "walkFn os fs dir u m p info err = (r, m')"
  shows "m' = m \<or>
    (\<exists>i. info = Some i \<and> err = None \<and> r = None \<and>
       \<not> info_IsDir i \<and> \<not> HasPrefix (info_Name i) ''.'' \<and> \<not> info_ModeSymlink i \<and>
       snd (hashFile fs (path_string fs p)) = None \<and>
       m' = m\<lparr>Files := Some (elems (Files m) @
         [\<lparr>Path = ToSlash os (fst (Rel os dir p)),
           URL = u @ ''/'' @ ToSlash os (fst (Rel os dir p)),
           Size = info_Size i,
           SHA256 = fst (hashFile fs (path_string fs p)),
           Compression = ''none''\<rparr>])\<rparr>)"
proof (cases err)
  case (Some e)
  with assms show ?thesis by (simp add: walkFn_error)
next
  case None
  show ?thesis
  proof (cases info)
    case None': None
    with None assms show ?thesis by (simp add: walkFn_def)
  next
    case (Some i)
    show ?thesis
    proof (cases "info_IsDir i \<or> HasPrefix (info_Name i) ''.'' \<or> info_ModeSymlink i")
      case True
      with assms None Some show ?thesis by (simp add: walkFn_skip)
    next
      case skip: False
      show ?thesis
      proof (cases "snd (hashFile fs (path_string fs p)) = None")
        case True
        with skip assms None Some show ?thesis by (simp add: walkFn_append)
      next
        case False
        with skip assms None Some show ?thesis
          by (auto simp: walkFn_def Rel_def Let_def split: prod.splits option.splits)
      qed
    qed
  qed
qed

section \<open>Invariants of a walk\<close>

text \<open>
  A property \<open>I\<close> of the state that every call of the function keeps, for the paths and
  entries that satisfy \<open>Q\<close>, holds after the walk, if \<open>Q\<close> passes from a directory to its
  entries.
\<close>

lemma walk_invariant:
  fixes fn :: "'s WalkFunc"
  shows "(\<And>s p n r s'. I s \<Longrightarrow> Q p n \<Longrightarrow> fn s p (node_info n) (node_err n) = (r, s') \<Longrightarrow> I s')
     \<Longrightarrow> (\<And>p name err entries e. Q p (Directory name err entries) \<Longrightarrow> e \<in> set entries
                 \<Longrightarrow> Q (Join p (node_name e)) e)
     \<Longrightarrow> I s \<Longrightarrow> Q p n \<Longrightarrow> walk fn p n s = (r, s') \<Longrightarrow> I s'"
    and "(\<And>s p n r s'. I s \<Longrightarrow> Q p n \<Longrightarrow> fn s p (node_info n) (node_err n) = (r, s') \<Longrightarrow> I s')
     \<Longrightarrow> (\<And>p name err entries e. Q p (Directory name err entries) \<Longrightarrow> e \<in> set entries
                 \<Longrightarrow> Q (Join p (node_name e)) e)
     \<Longrightarrow> I s \<Longrightarrow> (\<forall>e \<in> set es. Q (Join p (node_name e)) e)
     \<Longrightarrow> walk_names fn p es s = (r, s') \<Longrightarrow> I s'"
proof (induction fn p n s and fn p es s arbitrary: r s' and r s' rule: walk_walk_names.induct)
  case (1 fn path name err entries s)
  note step = "1.prems"(1) and down = "1.prems"(2)
  obtain err1 s1 where f: "fn s path (node_info (Directory name err entries)) (node_err (Directory name err entries)) = (err1, s1)"
    by (cases "fn s path (node_info (Directory name err entries)) (node_err (Directory name err entries))")
  have I1: "I s1" by (rule step [OF "1.prems"(3,4) f])
  show ?case
  proof (cases "err \<noteq> None \<or> err1 \<noteq> None")
    case True
    with "1.prems"(5) f have "s' = s1" by (auto simp: node_info_def)
    with I1 show ?thesis by simp
  next
    case False
    with "1.prems"(5) f have w: "walk_names fn path entries s1 = (r, s')"
      by (auto simp: node_info_def)
    have q: "\<forall>e \<in> set entries. Q (Join path (node_name e)) e"
      using down "1.prems"(4) by blast
    have f': "(err1, s1) = fn s path (Some \<lparr>info_Name = name, info_IsDir = True, info_ModeSymlink = False, info_Size = 0\<rparr>) err"
      using f by (simp add: node_info_def)
    show ?thesis
      by (rule "1.IH" [OF f' False step down I1 q w])
  qed
next
  case (2 fn path name sz s)
  then show ?case using "2.prems"(1) [of s path "Plain name sz" r s'] by (simp add: node_info_def)
next
  case (3 fn path name target s)
  then show ?case using "3.prems"(1) [of s path "Symlink name target" r s'] by (simp add: node_info_def)
next
  case (4 fn path name err s)
  then show ?case using "4.prems"(1) [of s path "Unstatable name err" r s'] by (simp add: node_info_def)
next
  case (5 fn path s)
  then show ?case by simp
next
  case (6 fn path entry entries s)
  note step = "6.prems"(1) and down = "6.prems"(2)
  obtain r1 s1 where w: "walk fn (Join path (node_name entry)) entry s = (r1, s1)"
    by (cases "walk fn (Join path (node_name entry)) entry s")
  have q1: "Q (Join path (node_name entry)) entry" using "6.prems"(4) by simp
  have I1: "I s1" by (rule "6.IH"(1) [OF step down "6.prems"(3) q1 w])
  show ?case
  proof (cases r1)
    case None
    with w "6.prems"(5) have w2: "walk_names fn path entries s1 = (r, s')" by simp
    have q: "\<forall>e \<in> set entries. Q (Join path (node_name e)) e" using "6.prems"(4) by simp
    show ?thesis
      by (rule "6.IH"(2) [OF w [symmetric] None step down I1 q w2])
  next
    case (Some e)
    with w "6.prems"(5) have "s' = s1" by simp
    with I1 show ?thesis by simp
  qed
qed

section \<open>Joined names, segments and double slashes\<close>

lemma splitOn_not_Nil: "splitOn c s \<noteq> []"
  by (induction s) (auto split: list.splits)

lemma splitOn_free: "c \<notin> set x \<Longrightarrow> splitOn c x = [x]"
  by (induction x) auto

lemma splitOn_append_sep: "c \<notin> set x \<Longrightarrow> splitOn c (x @ c # rest) = x # splitOn c rest"
  by (induction x) (auto split: list.splits simp: splitOn_not_Nil)

lemma splitOn_join_sep:
  "names \<noteq> [] \<Longrightarrow> \<forall>n \<in> set names. c \<notin> set n \<Longrightarrow> splitOn c (join_sep c names) = names"
  by (induction c names rule: join_sep.induct) (simp_all add: splitOn_free splitOn_append_sep)

lemma map_subst_id: "a \<notin> set x \<Longrightarrow> map (\<lambda>c. if c = a then b else c) x = x"
  by (induction x) auto

lemma ToSlash_join_sep:
  "\<forall>n \<in> set names. Separator os \<notin> set n
     \<Longrightarrow> ToSlash os (join_sep (Separator os) names) = join_sep (CHR ''/'') names"
proof (induction "Separator os" names rule: join_sep.induct)
  case 1
  then show ?case by (simp add: ToSlash_eq_map)
next
  case (2 x)
  then show ?case by (simp add: ToSlash_eq_map map_subst_id)
next
  case (3 x y ys)
  then have "ToSlash os (join_sep (Separator os) (y # ys)) = join_sep (CHR ''/'') (y # ys)"
    by simp
  moreover have "map (\<lambda>c. if c = Separator os then CHR ''/'' else c) x = x"
    using 3 by (simp add: map_subst_id)
  ultimately show ?case by (simp add: ToSlash_eq_map)
qed

lemma double_slash_append:
  "double_slash (a @ b) \<longleftrightarrow>
     double_slash a \<or> double_slash b \<or>
     (a \<noteq> [] \<and> b \<noteq> [] \<and> last a = CHR ''/'' \<and> hd b = CHR ''/'')"
proof (induction a)
  case Nil
  then show ?case by simp
next
  case (Cons x a)
  show ?case
  proof (cases a)
    case Nil
    then show ?thesis by (cases b) auto
  next
    case (Cons y a')
    with Cons.IH show ?thesis by auto
  qed
qed

lemma double_slash_free: "CHR ''/'' \<notin> set x \<Longrightarrow> \<not> double_slash x"
  by (induction x rule: double_slash.induct) auto

lemma join_sep_Nil_iff: "\<forall>n \<in> set names. n \<noteq> [] \<Longrightarrow> (join_sep c names = []) = (names = [])"
  by (induction c names rule: join_sep.induct) auto

lemma hd_join_sep:
  "names \<noteq> [] \<Longrightarrow> \<forall>n \<in> set names. n \<noteq> [] \<Longrightarrow> hd (join_sep c names) = hd (hd names)"
  by (induction c names rule: join_sep.induct) auto

lemma join_slash_no_double_slash:
  assumes "\<forall>n \<in> set names. n \<noteq> [] \<and> CHR ''/'' \<notin> set n"
  shows "\<not> double_slash (join_sep (CHR ''/'') names)"
  using assms
proof (induction "CHR ''/''" names rule: join_sep.induct)
  case 1
  then show ?case by simp
next
  case (2 x)
  then show ?case by (simp add: double_slash_free)
next
  case (3 x y ys)
  then have rest: "\<not> double_slash (join_sep (CHR ''/'') (y # ys))" by simp
  have y: "y \<noteq> []" "CHR ''/'' \<notin> set y" using 3 by auto
  have "hd (join_sep (CHR ''/'') (y # ys)) = hd y"
    using 3 hd_join_sep [of "y # ys" "CHR ''/''"] by simp
  then have h: "hd (join_sep (CHR ''/'') (y # ys)) \<noteq> CHR ''/''"
    using y by (metis hd_in_set)
  have ne: "join_sep (CHR ''/'') (y # ys) \<noteq> []"
    using 3 join_sep_Nil_iff [of "y # ys" "CHR ''/''"] by simp
  have x: "\<not> double_slash x" "x \<noteq> []" "last x \<noteq> CHR ''/''"
    using 3 double_slash_free [of x] by (auto dest: last_in_set)
  have "\<not> double_slash (CHR ''/'' # join_sep (CHR ''/'') (y # ys))"
    using rest h ne by (cases "join_sep (CHR ''/'') (y # ys)") auto
  then show ?case
    using x by (simp add: double_slash_append)
qed

section \<open>hashFile\<close>

lemma foldl_hasher_Write: "foldl hasher_Write h chunks = h @ concat chunks"
  by (induction chunks arbitrary: h) (simp_all add: hasher_Write_def)

lemma hashFile_readable:
  "os_Open fs path = Inr (OpenFile chunks None)
     \<Longrightarrow> hashFile fs path = (hex_EncodeToString (sha256_Sum256 (concat chunks)), None)"
  by (simp add: hashFile_def foldl_hasher_Write sha256_New_def hasher_Sum_def)

lemma hashFile_ok_iff:
  "snd (hashFile fs path) = None \<longleftrightarrow> (\<exists>chunks. os_Open fs path = Inr (OpenFile chunks None))"
proof (cases "os_Open fs path")
  case (Inl e)
  then show ?thesis by (simp add: hashFile_def)
next
  case (Inr opened)
  obtain chunks err where "opened = OpenFile chunks err" by (cases opened)
  with Inr show ?thesis by (cases err) (simp_all add: hashFile_def)
qed

lemma length_be_bytes: "length (be_bytes k n) = k"
  by (simp add: be_bytes_def)

lemma length_sha256_Sum256: "length (sha256_Sum256 msg) = 32"
  by (simp add: sha256_Sum256_def Let_def length_be_bytes split: prod.splits)

lemma length_hex_EncodeToString: "length (hex_EncodeToString src) = 2 * length src"
  by (induction src) (simp_all add: hex_EncodeToString_def)

lemma hextable_nth: "i < 16 \<Longrightarrow> hextable ! i \<in> set hextable"
proof -
  assume "i < 16"
  then have "i < length hextable" by (simp add: hextable_def)
  then show ?thesis by (rule nth_mem)
qed

lemma of_char_less_256: "(of_char c :: nat) < 256"
  by (metis of_char_of of_char_mod_256 mod_less_divisor zero_less_numeral)

lemma set_hex_EncodeToString: "set (hex_EncodeToString src) \<subseteq> set hextable"
proof (induction src)
  case Nil
  then show ?case by (simp add: hex_EncodeToString_def)
next
  case (Cons c src)
  have "(of_char c :: nat) div 16 < 16" "(of_char c :: nat) mod 16 < 16"
    using of_char_less_256 [of c] by (simp_all add: less_mult_imp_div_less)
  then have "hextable ! (of_char c div 16) \<in> set hextable"
    "hextable ! (of_char c mod 16) \<in> set hextable"
    by (simp_all add: hextable_nth)
  with Cons show ?case by (simp add: hex_EncodeToString_def)
qed

section \<open>Generate: validation and the result of the walk\<close>

lemma Generate_valid:
  assumes "ident \<noteq> []" "version \<noteq> []" "os_Stat (lookup fs dir) = Inr info" "info_IsDir info"
    and "HasPrefix urlPrefix ''http://'' \<or> HasPrefix urlPrefix ''https://''"
  shows "Generate os fs dir ident version urlPrefix prefetchPaths =
     (case walk (walkFn os fs dir (TrimSuffix urlPrefix ''/'')) (dir, []) (lookup fs dir)
             (manifest0 os ident version prefetchPaths) of
        (Some err, manifest1) \<Rightarrow> (None, Some (Errorf ''failed to walk directory: '' (Some err)))
      | (None, manifest1) \<Rightarrow> (Some manifest1, None))"
  using assms by (auto simp: Generate_def Walk_def manifest0_def Let_def)

lemma Generate_Some:
  assumes "Generate os fs dir ident version urlPrefix prefetchPaths = (Some m, e)"
  shows "e = None \<and> ident \<noteq> [] \<and> version \<noteq> [] \<and>
     (\<exists>info. os_Stat (lookup fs dir) = Inr info \<and> info_IsDir info) \<and>
     (HasPrefix urlPrefix ''http://'' \<or> HasPrefix urlPrefix ''https://'') \<and>
     walk (walkFn os fs dir (TrimSuffix urlPrefix ''/'')) (dir, []) (lookup fs dir)
       (manifest0 os ident version prefetchPaths) = (None, m)"
  using assms
  by (auto simp: Generate_def Walk_def manifest0_def Let_def
      split: if_splits sum.splits prod.splits option.splits)

lemma Generate_error_no_manifest:
  "snd (Generate os fs dir ident version urlPrefix prefetchPaths) \<noteq> None
     \<longleftrightarrow> fst (Generate os fs dir ident version urlPrefix prefetchPaths) = None"
  by (auto simp: Generate_def Let_def split: if_splits sum.splits prod.splits option.splits)

section \<open>Where the walk of Generate fails\<close>

lemma walk_walkFn_fails:
  "fst (walk (walkFn os fs dir u) p n m) \<noteq> None \<longleftrightarrow> walk_fails os fs p n"
  "fst (walk_names (walkFn os fs dir u) p es m) \<noteq> None \<longleftrightarrow> walk_names_fails os fs p es"
proof (induction os fs p n and os fs p es arbitrary: m and m
    rule: walk_fails_walk_names_fails.induct)
  case (1 os fs p name err)
  show ?case by (simp add: walkFn_error)
next
  case (2 os fs p name err entries)
  show ?case
  proof (cases err)
    case None
    then show ?thesis using 2 [of m] by (simp add: walkFn_skip)
  next
    case (Some e)
    then show ?thesis by (simp add: walkFn_error)
  qed
next
  case (3 os fs p name sz)
  show ?case
  proof (cases "HasPrefix name ''.''")
    case True
    then show ?thesis by (simp add: walkFn_skip)
  next
    case False
    show ?thesis
    proof (cases "snd (hashFile fs (path_string fs p)) = None")
      case True
      with False show ?thesis by (simp add: walkFn_append)
    next
      case h: False
      with False show ?thesis
        using walkFn_hash_error [where i = "\<lparr>info_Name = name, info_IsDir = False,
          info_ModeSymlink = False, info_Size = sz\<rparr>" and fs = fs and os = os and p = p
          and dir = dir and u = u and m = m]
        by simp
    qed
  qed
next
  case (4 os fs p name target)
  show ?case by (simp add: walkFn_skip)
next
  case (5 os fs p)
  show ?case by simp
next
  case (6 os fs p entry entries)
  obtain r1 m1 where w: "walk (walkFn os fs dir u) (Join p (node_name entry)) entry m = (r1, m1)"
    by (cases "walk (walkFn os fs dir u) (Join p (node_name entry)) entry m")
  have a: "(r1 \<noteq> None) = walk_fails os fs (Join p (node_name entry)) entry"
    using "6"(1) [of m] w by simp
  show ?case
  proof (cases r1)
    case None
    with w a "6"(2) [of m1] show ?thesis by simp
  next
    case (Some e)
    with w a show ?thesis by simp
  qed
qed

section \<open>The paths of the files of a generated manifest\<close>

lemma wf_entry_name: "wf_entry os n \<Longrightarrow> wf_name os (node_name n)"
  by (cases n) simp_all

lemma node_info_name: "node_info n = Some i \<Longrightarrow> info_Name i = node_name n"
  by (cases n) (auto simp: node_info_def)

lemma visit_ok_down:
  assumes "visit_ok os p (Directory name err entries)" "e \<in> set entries"
  shows "visit_ok os (Join p (node_name e)) e"
proof -
  have "list_all (wf_entry os) entries"
    using assms(1) by (cases "snd p = []") (simp_all add: visit_ok_def)
  then have e: "wf_entry os e" using assms(2) by (simp add: list_all_iff)
  then have "wf_name os (node_name e)" by (rule wf_entry_name)
  moreover have "list_all (wf_name os) (snd p)" using assms(1) by (simp add: visit_ok_def)
  ultimately show ?thesis using e by (simp add: visit_ok_def Join_def)
qed

lemma visit_ok_root:
  assumes "os_Stat n = Inr info" "info_IsDir info" "wf_root os n"
  shows "visit_ok os (dir, []) n"
  using assms by (cases n) (auto simp: visit_ok_def node_info_def split: sum.splits)

lemma paths_ok_step:
  assumes I: "paths_ok os m" and Q: "visit_ok os p n"
    and f: "walkFn os fs dir u m p (node_info n) (node_err n) = (r, m')"
  shows "paths_ok os m'"
proof -
  from walkFn_result [OF f] show ?thesis
  proof
    assume "m' = m"
    with I show ?thesis by simp
  next
    assume "\<exists>i. node_info n = Some i \<and> node_err n = None \<and> r = None \<and>
       \<not> info_IsDir i \<and> \<not> HasPrefix (info_Name i) ''.'' \<and> \<not> info_ModeSymlink i \<and>
       snd (hashFile fs (path_string fs p)) = None \<and>
       m' = m\<lparr>Files := Some (elems (Files m) @
         [\<lparr>Path = ToSlash os (fst (Rel os dir p)),
           URL = u @ ''/'' @ ToSlash os (fst (Rel os dir p)),
           Size = info_Size i,
           SHA256 = fst (hashFile fs (path_string fs p)),
           Compression = ''none''\<rparr>])\<rparr>"
    then obtain i where i: "node_info n = Some i" "\<not> info_IsDir i"
        "\<not> HasPrefix (info_Name i) ''.''" "\<not> info_ModeSymlink i"
      and m': "m' = m\<lparr>Files := Some (elems (Files m) @
         [\<lparr>Path = ToSlash os (fst (Rel os dir p)),
           URL = u @ ''/'' @ ToSlash os (fst (Rel os dir p)),
           Size = info_Size i,
           SHA256 = fst (hashFile fs (path_string fs p)),
           Compression = ''none''\<rparr>])\<rparr>"
      by blast
    have ne: "snd p \<noteq> []"
      using Q i by (auto simp: visit_ok_def)
    then have names: "list_all (wf_name os) (snd p)" "last (snd p) = node_name n"
      using Q by (simp_all add: visit_ok_def)
    have "\<forall>x \<in> set (snd p). Separator os \<notin> set x"
      using names(1) by (simp add: list_all_iff wf_name_def)
    then have "ToSlash os (join_sep (Separator os) (snd p)) = join_sep (CHR ''/'') (snd p)"
      by (rule ToSlash_join_sep)
    then have path: "ToSlash os (fst (Rel os dir p)) = join_sep (CHR ''/'') (snd p)"
      using ne by (simp add: Rel_def)
    have "\<not> HasPrefix (last (snd p)) ''.''"
      using i names(2) node_info_name [of n i] by simp
    with ne names(1) path have
      "\<exists>names. names \<noteq> [] \<and> list_all (wf_name os) names \<and>
          \<not> HasPrefix (last names) ''.'' \<and>
          ToSlash os (fst (Rel os dir p)) = join_sep (CHR ''/'') names"
      by blast
    with I m' show ?thesis by (auto simp: paths_ok_def elems_def)
  qed
qed

lemma Generate_paths_ok:
  assumes g: "Generate os fs dir ident version urlPrefix prefetchPaths = (Some m, e)"
    and wf: "wf_root os (lookup fs dir)"
  shows "paths_ok os m"
proof -
  from Generate_Some [OF g] obtain info where
    st: "os_Stat (lookup fs dir) = Inr info" "info_IsDir info"
    and w: "walk (walkFn os fs dir (TrimSuffix urlPrefix ''/'')) (dir, []) (lookup fs dir)
       (manifest0 os ident version prefetchPaths) = (None, m)"
    by blast
  have I0: "paths_ok os (manifest0 os ident version prefetchPaths)"
    by (simp add: paths_ok_def manifest0_def elems_def)
  have Q0: "visit_ok os (dir, []) (lookup fs dir)"
    using st wf by (rule visit_ok_root)
  show ?thesis
    by (rule walk_invariant(1) [where I = "paths_ok os" and Q = "visit_ok os", OF _ _ I0 Q0 w])
       (erule (2) paths_ok_step, erule (1) visit_ok_down)
qed

text \<open>The same invariant argument, for the fields the walk never changes and for the URLs.\<close>

lemma Generate_fields:
  assumes g: "Generate os fs dir ident version urlPrefix prefetchPaths = (Some m, e)"
  shows "ArtifactID m = ident \<and> Version m = version \<and> MountPath m = ''/mnt/mlmodel'' \<and>
     Prefetch m = normalizePrefetchPaths os prefetchPaths \<and> Files m \<noteq> None \<and>
     (\<forall>f \<in> set (elems (Files m)).
        URL f = TrimSuffix urlPrefix ''/'' @ ''/'' @ Path f \<and> Compression f = ''none'' \<and>
        (\<exists>p. snd (hashFile fs p) = None \<and> SHA256 f = fst (hashFile fs p)))"
proof -
  let ?u = "TrimSuffix urlPrefix ''/''"
  let ?I = "\<lambda>m. ArtifactID m = ident \<and> Version m = version \<and> MountPath m = ''/mnt/mlmodel'' \<and>
     Prefetch m = normalizePrefetchPaths os prefetchPaths \<and> Files m \<noteq> None \<and>
     (\<forall>f \<in> set (elems (Files m)).
        URL f = ?u @ ''/'' @ Path f \<and> Compression f = ''none'' \<and>
        (\<exists>p. snd (hashFile fs p) = None \<and> SHA256 f = fst (hashFile fs p)))"
  from Generate_Some [OF g] have
    w: "walk (walkFn os fs dir ?u) (dir, []) (lookup fs dir)
       (manifest0 os ident version prefetchPaths) = (None, m)"
    by blast
  have I0: "?I (manifest0 os ident version prefetchPaths)"
    by (simp add: manifest0_def elems_def)
  have step: "?I s'" if "?I s" "walkFn os fs dir ?u s p (node_info n) (node_err n) = (r, s')"
    for s p n r s'
    using walkFn_result [OF that(2)] that(1) by (auto simp: elems_def) blast
  show ?thesis
    by (rule walk_invariant(1) [where I = ?I and Q = "\<lambda>p n. True", OF _ _ I0 _ w])
       (erule step, assumption, simp_all)
qed

section \<open>The files of a generated manifest, exactly\<close>

lemma walkFn_hash_ok:
  assumes "\<not> info_IsDir i" "\<not> HasPrefix (info_Name i) ''.''" "\<not> info_ModeSymlink i"
    and "walkFn os fs dir u m p (Some i) None = (None, m')"
  shows "snd (hashFile fs (path_string fs p)) = None"
proof (rule ccontr)
  assume "snd (hashFile fs (path_string fs p)) \<noteq> None"
  then have "fst (walkFn os fs dir u m p (Some i) None) \<noteq> None"
    by (rule walkFn_hash_error [OF assms(1-3)])
  with assms(4) show False by simp
qed

lemma Rel_names: "ns \<noteq> [] \<Longrightarrow> fst (Rel os dir (dir, ns)) = join_sep (Separator os) ns"
  by (simp add: Rel_def)

lemma walk_Files:
  "ns \<noteq> [] \<Longrightarrow> Files m \<noteq> None \<Longrightarrow> walk (walkFn os fs dir u) (dir, ns) n m = (None, m') \<Longrightarrow>
     Files m' = Some (elems (Files m) @ map (file_of os fs dir u) (retained ns n)) \<and>
     (\<forall>x \<in> set (retained ns n). snd (hashFile fs (path_string fs (dir, fst x))) = None)"
  "Files m \<noteq> None \<Longrightarrow> walk_names (walkFn os fs dir u) (dir, ns) es m = (None, m') \<Longrightarrow>
     Files m' = Some (elems (Files m) @ map (file_of os fs dir u) (retained_names ns es)) \<and>
     (\<forall>x \<in> set (retained_names ns es). snd (hashFile fs (path_string fs (dir, fst x))) = None)"
proof (induction ns n and ns es arbitrary: m m' and m m' rule: retained_retained_names.induct)
  case (1 names name sz)
  let ?i = "\<lparr>info_Name = name, info_IsDir = False, info_ModeSymlink = False, info_Size = sz\<rparr>"
  from "1.prems"(3) have w: "walkFn os fs dir u m (dir, names) (Some ?i) None = (None, m')"
    by simp
  show ?case
  proof (cases "HasPrefix name ''.''")
    case True
    then have "walkFn os fs dir u m (dir, names) (Some ?i) None = (None, m)"
      by (simp add: walkFn_skip)
    with w have "m' = m" by simp
    with True "1.prems"(2) show ?thesis by (auto simp: elems_def)
  next
    case False
    have i: "\<not> info_IsDir ?i" "\<not> HasPrefix (info_Name ?i) ''.''" "\<not> info_ModeSymlink ?i"
      using False by simp_all
    have h: "snd (hashFile fs (path_string fs (dir, names))) = None"
      by (rule walkFn_hash_ok [OF i w])
    have "m' = snd (walkFn os fs dir u m (dir, names) (Some ?i) None)"
      by (simp add: w)
    then have "Files m' = Some (elems (Files m) @ [file_of os fs dir u (names, sz)])"
      unfolding walkFn_append [OF i h, of os dir u m] using "1.prems"(1)
      by (simp add: file_of_def Rel_names)
    with False h show ?thesis by simp
  qed
next
  case (2 names name target)
  let ?i = "\<lparr>info_Name = name, info_IsDir = False, info_ModeSymlink = True, info_Size = 0\<rparr>"
  have "walkFn os fs dir u m (dir, names) (Some ?i) None = (None, m)"
    by (simp add: walkFn_skip)
  with "2.prems"(3) have "m' = m" by simp
  with "2.prems"(2) show ?case by (auto simp: elems_def)
next
  case (3 names name err entries)
  let ?i = "\<lparr>info_Name = name, info_IsDir = True, info_ModeSymlink = False, info_Size = 0\<rparr>"
  show ?case
  proof (cases err)
    case (Some e)
    then have "fst (walk (walkFn os fs dir u) (dir, names) (Directory name err entries) m) \<noteq> None"
      by (simp add: walkFn_error)
    with "3.prems"(3) show ?thesis by simp
  next
    case None
    have "walkFn os fs dir u m (dir, names) (Some ?i) None = (None, m)"
      by (simp add: walkFn_skip)
    with None "3.prems"(3)
    have "walk_names (walkFn os fs dir u) (dir, names) entries m = (None, m')"
      by simp
    from "3.IH" [OF "3.prems"(2) this] show ?thesis by simp
  qed
next
  case (4 names name err)
  have "fst (walk (walkFn os fs dir u) (dir, names) (Unstatable name err) m) \<noteq> None"
    by (simp add: walkFn_error)
  with "4.prems"(3) show ?case by simp
next
  case (5 names)
  then show ?case by (auto simp: elems_def)
next
  case (6 names entry entries)
  obtain r1 m1 where
    w1: "walk (walkFn os fs dir u) (dir, names @ [node_name entry]) entry m = (r1, m1)"
    by (cases "walk (walkFn os fs dir u) (dir, names @ [node_name entry]) entry m")
  from "6.prems"(2) w1 have r1: "r1 = None"
    by (cases r1) (simp_all add: Join_def)
  from "6.prems"(2) w1 r1
  have w2: "walk_names (walkFn os fs dir u) (dir, names) entries m1 = (None, m')"
    by (simp add: Join_def)
  have a: "Files m1 = Some (elems (Files m) @
        map (file_of os fs dir u) (retained (names @ [node_name entry]) entry))"
    and ha: "\<forall>x \<in> set (retained (names @ [node_name entry]) entry).
        snd (hashFile fs (path_string fs (dir, fst x))) = None"
    using "6.IH"(1) [OF _ "6.prems"(1) w1 [unfolded r1]] by simp_all
  from a have n1: "Files m1 \<noteq> None" by simp
  have b: "Files m' = Some (elems (Files m1) @
        map (file_of os fs dir u) (retained_names names entries))"
    and hb: "\<forall>x \<in> set (retained_names names entries).
        snd (hashFile fs (path_string fs (dir, fst x))) = None"
    using "6.IH"(2) [OF n1 w2] by simp_all
  from a b ha hb show ?case by (auto simp: elems_def)
qed

text \<open>
  The root of a successful \<open>Generate\<close> is a directory, or a symbolic link to one, which
  the walk does not follow.
\<close>

lemma Generate_Files:
  assumes g: "Generate os fs dir ident version urlPrefix prefetchPaths = (Some m, e)"
  shows "Files m = Some (map (file_of os fs dir (TrimSuffix urlPrefix ''/''))
                      (retained [] (lookup fs dir))) \<and>
         (\<forall>x \<in> set (retained [] (lookup fs dir)).
            snd (hashFile fs (path_string fs (dir, fst x))) = None)"
proof -
  let ?u = "TrimSuffix urlPrefix ''/''"
  let ?m0 = "manifest0 os ident version prefetchPaths"
  from Generate_Some [OF g] obtain info where
    st: "os_Stat (lookup fs dir) = Inr info" "info_IsDir info" and
    w: "walk (walkFn os fs dir ?u) (dir, []) (lookup fs dir) ?m0 = (None, m)"
    by blast
  have f0: "Files ?m0 \<noteq> None" "elems (Files ?m0) = []"
    by (simp_all add: manifest0_def elems_def)
  show ?thesis
  proof (cases "lookup fs dir")
    case (Plain name sz)
    with st show ?thesis by auto
  next
    case (Symlink name target)
    let ?i = "\<lparr>info_Name = name, info_IsDir = False, info_ModeSymlink = True, info_Size = 0\<rparr>"
    have "walkFn os fs dir ?u ?m0 (dir, []) (Some ?i) None = (None, ?m0)"
      by (simp add: walkFn_skip)
    with w Symlink have "m = ?m0" by simp
    with Symlink show ?thesis by (simp add: manifest0_def)
  next
    case (Directory name err entries)
    let ?i = "\<lparr>info_Name = name, info_IsDir = True, info_ModeSymlink = False, info_Size = 0\<rparr>"
    show ?thesis
    proof (cases err)
      case (Some e)
      then have "fst (walk (walkFn os fs dir ?u) (dir, []) (Directory name err entries) ?m0) \<noteq> None"
        by (simp add: walkFn_error)
      with w Directory show ?thesis by simp
    next
      case None
      have "walkFn os fs dir ?u ?m0 (dir, []) (Some ?i) None = (None, ?m0)"
        by (simp add: walkFn_skip)
      with None w Directory
      have "walk_names (walkFn os fs dir ?u) (dir, []) entries ?m0 = (None, m)"
        by simp
      from walk_Files(2) [OF f0(1) this] Directory f0(2) show ?thesis by simp
    qed
  next
    case (Unstatable name err)
    with st show ?thesis by auto
  qed
qed

lemma file_bytes_hashFile:
  "snd (hashFile fs p) = None \<longleftrightarrow> (\<exists>bs. file_bytes fs p = Some bs)"
  "file_bytes fs p = Some bs \<Longrightarrow> hashFile fs p = (hex_EncodeToString (sha256_Sum256 bs), None)"
proof -
  show "snd (hashFile fs p) = None \<longleftrightarrow> (\<exists>bs. file_bytes fs p = Some bs)"
    using hashFile_ok_iff [of fs p]
    by (auto simp: file_bytes_def split: sum.splits os_File.splits option.splits)
  show "file_bytes fs p = Some bs \<Longrightarrow> hashFile fs p = (hex_EncodeToString (sha256_Sum256 bs), None)"
    by (auto simp: file_bytes_def hashFile_readable split: sum.splits os_File.splits option.splits)
qed

section \<open>The example file systems, evaluated\<close>

lemma hashFile_example:
  "p \<noteq> ''/data/locked.bin'' \<Longrightarrow> hashFile (example_fs root) p = (test_digest, None)"
proof -
  assume "p \<noteq> ''/data/locked.bin''"
  then have "os_Open (example_fs root) p = Inr (OpenFile [''te'', [CHR ''s'', CHR ''t'', CHR 0x0A]] None)"
    by (simp add: example_fs_def)
  then have "hashFile (example_fs root) p =
      (hex_EncodeToString (sha256_Sum256 (concat [''te'', [CHR ''s'', CHR ''t'', CHR 0x0A]])), None)"
    by (rule hashFile_readable)
  then show ?thesis by (simp add: sha256_Sum256_test hex_test test_digest_def)
qed

lemma hashFile_locked:
  "hashFile (example_fs root) ''/data/locked.bin'' = ([], Some (OsError (OsErr ''permission denied'')))"
  by (simp add: hashFile_def example_fs_def)

lemma lookup_example: "lookup (example_fs root) ''/data'' = root"
  by (simp add: example_fs_def)

text \<open>Cleaning and joining paths on Unix, on cases of the tests of the library.\<close>

lemma Clean_unix_examples:
  "Clean_unix ''a//b/./c/'' = ''a/b/c''"
  "Clean_unix ''/../a'' = ''/a''"
  "Clean_unix ''a/b/../../../c'' = ''../c''"
  "Clean_unix ''/'' = ''/''"
  "Clean_unix ''a/..'' = ''.''"
  "Clean_unix ''/abc/def/../..'' = ''/''"
  "Clean_unix ''abc/def/ghi/../jkl'' = ''abc/def/jkl''"
  "Clean_unix ''abc/../../././../def'' = ''../../def''"
  by (simp_all add: Clean_unix_def)

lemma Join_unix_examples:
  "Join_unix ''/data/'' ''locked.bin'' = ''/data/locked.bin''"
  "Join_unix ''.'' ''a'' = ''a''"
  "Join_unix ''/'' ''a'' = ''/a''"
  "Join_unix ''a'' [] = ''a''"
  by (simp_all add: Join_unix_def Clean_unix_def)

lemma Join_example: "filepath_Join (example_fs root) = Join_unix"
  by (simp add: example_fs_def)

lemma Join_unix_data:
  "Join_unix ''/data'' ''test.txt'' = ''/data/test.txt''"
  "Join_unix ''/data'' ''a.txt'' = ''/data/a.txt''"
  "Join_unix ''/data'' ''locked.bin'' = ''/data/locked.bin''"
  "Join_unix ''/data'' ''.hidden'' = ''/data/.hidden''"
  "Join_unix ''/data'' ''.git'' = ''/data/.git''"
  "Join_unix ''/data/.git'' ''config'' = ''/data/.git/config''"
  by (simp_all add: Join_unix_def Clean_unix_def)

lemmas walk_eval =
  walkFn_def Rel_def Join_def path_string_def Join_example Join_unix_data ToSlash_def
  Separator_def HasPrefix_def
  elems_def manifest0_def normalizePrefetchPaths_def Let_def

lemma walk_plain_example:
  "walk (walkFn Unix (example_fs tree_plain) ''/data'' u) (''/data'', []) tree_plain
     (manifest0 Unix ''test'' ''v1'' None) =
   (None,
    \<lparr>ArtifactID = ''test'', Version = ''v1'', MountPath = ''/mnt/mlmodel'', Prefetch = Some [],
     Files = Some [\<lparr>Path = ''test.txt'', URL = u @ ''/test.txt'', Size = 5,
                    SHA256 = test_digest, Compression = ''none''\<rparr>]\<rparr>)"
  by (simp add: tree_plain_def walk_eval hashFile_example)

lemma walk_hidden_example:
  "walk (walkFn Unix (example_fs tree_hidden) ''/data'' u) (''/data'', []) tree_hidden
     (manifest0 Unix ''test'' ''v1'' None) =
   (None,
    \<lparr>ArtifactID = ''test'', Version = ''v1'', MountPath = ''/mnt/mlmodel'', Prefetch = Some [],
     Files = Some [\<lparr>Path = ''.git/config'', URL = u @ ''/.git/config'', Size = 5,
                    SHA256 = test_digest, Compression = ''none''\<rparr>,
                   \<lparr>Path = ''test.txt'', URL = u @ ''/test.txt'', Size = 5,
                    SHA256 = test_digest, Compression = ''none''\<rparr>]\<rparr>)"
  by (simp add: tree_hidden_def walk_eval hashFile_example)

lemma walk_locked_example:
  "walk (walkFn Unix (example_fs tree_locked) ''/data'' u) (''/data'', []) tree_locked
     (manifest0 Unix ''test'' ''v1'' None) =
   (Some (Errorf ''failed to hash file locked.bin: '' (Some (OsError (OsErr ''permission denied'')))),
    \<lparr>ArtifactID = ''test'', Version = ''v1'', MountPath = ''/mnt/mlmodel'', Prefetch = Some [],
     Files = Some [\<lparr>Path = ''a.txt'', URL = u @ ''/a.txt'', Size = 5,
                    SHA256 = test_digest, Compression = ''none''\<rparr>]\<rparr>)"
  by (simp add: tree_locked_def walk_eval hashFile_example hashFile_locked)

lemma os_Stat_examples:
  "os_Stat tree_plain = Inr \<lparr>info_Name = ''data'', info_IsDir = True, info_ModeSymlink = False, info_Size = 0\<rparr>"
  "os_Stat tree_hidden = Inr \<lparr>info_Name = ''data'', info_IsDir = True, info_ModeSymlink = False, info_Size = 0\<rparr>"
  "os_Stat tree_locked = Inr \<lparr>info_Name = ''data'', info_IsDir = True, info_ModeSymlink = False, info_Size = 0\<rparr>"
  by (simp_all add: tree_plain_def tree_hidden_def tree_locked_def)

lemma Generate_plain_example:
  assumes "HasPrefix u ''http://'' \<or> HasPrefix u ''https://''"
  shows "Generate Unix (example_fs tree_plain) ''/data'' ''test'' ''v1'' u None =
   (Some \<lparr>ArtifactID = ''test'', Version = ''v1'', MountPath = ''/mnt/mlmodel'',
           Prefetch = Some [],
           Files = Some [\<lparr>Path = ''test.txt'', URL = TrimSuffix u ''/'' @ ''/test.txt'',
                          Size = 5, SHA256 = test_digest, Compression = ''none''\<rparr>]\<rparr>,
    None)"
  using assms
  by (simp add: Generate_valid [where info = "\<lparr>info_Name = ''data'', info_IsDir = True,
        info_ModeSymlink = False, info_Size = 0\<rparr>"] lookup_example os_Stat_examples
      walk_plain_example)

lemma Generate_hidden_example:
  "Generate Unix (example_fs tree_hidden) ''/data'' ''test'' ''v1'' ''https://example.com'' None =
   (Some \<lparr>ArtifactID = ''test'', Version = ''v1'', MountPath = ''/mnt/mlmodel'',
           Prefetch = Some [],
           Files = Some [\<lparr>Path = ''.git/config'', URL = ''https://example.com/.git/config'',
                          Size = 5, SHA256 = test_digest, Compression = ''none''\<rparr>,
                         \<lparr>Path = ''test.txt'', URL = ''https://example.com/test.txt'',
                          Size = 5, SHA256 = test_digest, Compression = ''none''\<rparr>]\<rparr>,
    None)"
  by (simp add: Generate_valid [where info = "\<lparr>info_Name = ''data'', info_IsDir = True,
        info_ModeSymlink = False, info_Size = 0\<rparr>"] lookup_example os_Stat_examples
      walk_hidden_example HasPrefix_def TrimSuffix_def suffix_to_prefix)

lemma Generate_locked_example:
  "Generate Unix (example_fs tree_locked) ''/data'' ''test'' ''v1'' ''https://example.com'' None =
   (None, Some (Errorf ''failed to walk directory: ''
      (Some (Errorf ''failed to hash file locked.bin: ''
         (Some (OsError (OsErr ''permission denied'')))))))"
  by (simp add: Generate_valid [where info = "\<lparr>info_Name = ''data'', info_IsDir = True,
        info_ModeSymlink = False, info_Size = 0\<rparr>"] lookup_example os_Stat_examples
      walk_locked_example HasPrefix_def)

section \<open>Generate: validation\<close>

text \<open>
  C2. \<open>Generate\<close> checks its inputs in a fixed order and returns at the first check that
  fails, with an error and no manifest: an empty \<open>id\<close> or \<open>version\<close> gives the error
  \<open>id and version are required\<close>, a ValidationError of the specification; otherwise a
  root on which \<open>os.Stat\<close> fails or that is not a directory gives \<open>cannot access
  directory\<close> or \<open>path is not a directory\<close>, a FilesystemError; otherwise a
  \<open>urlPrefix\<close> that begins with neither \<open>http://\<close> nor \<open>https://\<close> gives \<open>url-prefix
  must start with http:// or https://\<close>, a ValidationError.
\<close>

theorem Generate_validation_order:
  "(ident = [] \<or> version = [] \<longrightarrow>
      Generate os fs dir ident version urlPrefix prefetchPaths =
        (None, Some (Errorf ''id and version are required'' None)) \<and>
      spec_error_kind (Errorf ''id and version are required'' None) = Some ValidationError)
   \<and> (ident \<noteq> [] \<and> version \<noteq> [] \<and> os_Stat (lookup fs dir) = Inl err \<longrightarrow>
      Generate os fs dir ident version urlPrefix prefetchPaths =
        (None, Some (Errorf ''cannot access directory: '' (Some (OsError err)))) \<and>
      spec_error_kind (Errorf ''cannot access directory: '' (Some (OsError err)))
        = Some FilesystemError)
   \<and> (ident \<noteq> [] \<and> version \<noteq> [] \<and> os_Stat (lookup fs dir) = Inr info \<and> \<not> info_IsDir info \<longrightarrow>
      Generate os fs dir ident version urlPrefix prefetchPaths =
        (None, Some (Errorf (''path is not a directory: '' @ dir) None)) \<and>
      spec_error_kind (Errorf (''path is not a directory: '' @ dir) None) = Some FilesystemError)
   \<and> (ident \<noteq> [] \<and> version \<noteq> [] \<and> os_Stat (lookup fs dir) = Inr info \<and> info_IsDir info \<and>
       \<not> HasPrefix urlPrefix ''http://'' \<and> \<not> HasPrefix urlPrefix ''https://'' \<longrightarrow>
      Generate os fs dir ident version urlPrefix prefetchPaths =
        (None, Some (Errorf ''url-prefix must start with http:// or https://'' None)) \<and>
      spec_error_kind (Errorf ''url-prefix must start with http:// or https://'' None)
        = Some ValidationError)"
proof -
  have "spec_error_kind (Errorf (''path is not a directory: '' @ dir) None) = Some FilesystemError"
    by simp
  then show ?thesis by (auto simp: Generate_def)
qed

theorem Generate_validation_order_witness:
  "Generate Unix (example_fs tree_plain) ''/missing'' [] ''v1'' ''s3://bucket/path'' None =
     (None, Some (Errorf ''id and version are required'' None))
   \<and> Generate Unix (example_fs tree_plain) ''/missing'' ''test'' ''v1'' ''s3://bucket/path'' None =
     (None, Some (Errorf ''cannot access directory: ''
        (Some (OsError (OsErr ''no such file or directory'')))))
   \<and> Generate Unix (example_fs (Plain ''data'' 5)) ''/data'' ''test'' ''v1'' ''s3://bucket/path'' None =
     (None, Some (Errorf ''path is not a directory: /data'' None))
   \<and> Generate Unix (example_fs tree_plain) ''/data'' ''test'' ''v1'' ''s3://bucket/path'' None =
     (None, Some (Errorf ''url-prefix must start with http:// or https://'' None))"
  using
    Generate_validation_order [where ident = "[]" and version = "''v1''" and os = Unix
      and fs = "example_fs tree_plain" and dir = "''/missing''"
      and urlPrefix = "''s3://bucket/path''" and prefetchPaths = None]
    Generate_validation_order [where ident = "''test''" and version = "''v1''" and os = Unix
      and fs = "example_fs tree_plain" and dir = "''/missing''"
      and urlPrefix = "''s3://bucket/path''" and prefetchPaths = None
      and err = "OsErr ''no such file or directory''"]
    Generate_validation_order [where ident = "''test''" and version = "''v1''" and os = Unix
      and fs = "example_fs (Plain ''data'' 5)" and dir = "''/data''"
      and urlPrefix = "''s3://bucket/path''" and prefetchPaths = None
      and info = "\<lparr>info_Name = ''data'', info_IsDir = False, info_ModeSymlink = False,
        info_Size = 5\<rparr>"]
    Generate_validation_order [where ident = "''test''" and version = "''v1''" and os = Unix
      and fs = "example_fs tree_plain" and dir = "''/data''"
      and urlPrefix = "''s3://bucket/path''" and prefetchPaths = None
      and info = "\<lparr>info_Name = ''data'', info_IsDir = True, info_ModeSymlink = False,
        info_Size = 0\<rparr>"]
  by (simp add: example_fs_def tree_plain_def HasPrefix_def)

section \<open>Generate: all or nothing\<close>

text \<open>
  C7. \<open>Generate\<close> returns either a manifest and no error, or an error and no manifest.
  Whenever an error is met in the walk (an entry on which \<open>Lstat\<close> fails, a directory that
  cannot be read, a file whose hashing fails), it returns an error and no manifest; the
  files appended before the error are not returned. When the inputs are valid and no
  error is met, it returns a manifest.
\<close>

theorem Generate_all_or_nothing:
  "(snd (Generate os fs dir ident version urlPrefix prefetchPaths) \<noteq> None
      \<longleftrightarrow> fst (Generate os fs dir ident version urlPrefix prefetchPaths) = None)
   \<and> (walk_fails os fs (dir, []) (lookup fs dir) \<longrightarrow>
        fst (Generate os fs dir ident version urlPrefix prefetchPaths) = None \<and>
        snd (Generate os fs dir ident version urlPrefix prefetchPaths) \<noteq> None)
   \<and> (ident \<noteq> [] \<and> version \<noteq> [] \<and> os_Stat (lookup fs dir) = Inr info \<and> info_IsDir info \<and>
       (HasPrefix urlPrefix ''http://'' \<or> HasPrefix urlPrefix ''https://'') \<and>
       \<not> walk_fails os fs (dir, []) (lookup fs dir) \<longrightarrow>
        fst (Generate os fs dir ident version urlPrefix prefetchPaths) \<noteq> None \<and>
        snd (Generate os fs dir ident version urlPrefix prefetchPaths) = None)"
proof (intro conjI impI)
  show "snd (Generate os fs dir ident version urlPrefix prefetchPaths) \<noteq> None
      \<longleftrightarrow> fst (Generate os fs dir ident version urlPrefix prefetchPaths) = None"
    by (rule Generate_error_no_manifest)
next
  assume fails: "walk_fails os fs (dir, []) (lookup fs dir)"
  have "fst (Generate os fs dir ident version urlPrefix prefetchPaths) = None"
  proof (rule ccontr)
    assume "fst (Generate os fs dir ident version urlPrefix prefetchPaths) \<noteq> None"
    then obtain m e where "Generate os fs dir ident version urlPrefix prefetchPaths = (Some m, e)"
      by (cases "Generate os fs dir ident version urlPrefix prefetchPaths") auto
    from Generate_Some [OF this] have
      "fst (walk (walkFn os fs dir (TrimSuffix urlPrefix ''/'')) (dir, []) (lookup fs dir)
         (manifest0 os ident version prefetchPaths)) = None"
      by simp
    with fails show False
      using walk_walkFn_fails(1) [of os fs dir "TrimSuffix urlPrefix ''/''" "(dir, [])"
          "lookup fs dir" "manifest0 os ident version prefetchPaths"]
      by simp
  qed
  then show "fst (Generate os fs dir ident version urlPrefix prefetchPaths) = None"
    "snd (Generate os fs dir ident version urlPrefix prefetchPaths) \<noteq> None"
    using Generate_error_no_manifest [of os fs dir ident version urlPrefix prefetchPaths]
    by auto
next
  assume a: "ident \<noteq> [] \<and> version \<noteq> [] \<and> os_Stat (lookup fs dir) = Inr info \<and> info_IsDir info \<and>
       (HasPrefix urlPrefix ''http://'' \<or> HasPrefix urlPrefix ''https://'') \<and>
       \<not> walk_fails os fs (dir, []) (lookup fs dir)"
  then have "fst (walk (walkFn os fs dir (TrimSuffix urlPrefix ''/'')) (dir, []) (lookup fs dir)
         (manifest0 os ident version prefetchPaths)) = None"
    using walk_walkFn_fails(1) [of os fs dir "TrimSuffix urlPrefix ''/''" "(dir, [])" "lookup fs dir"
        "manifest0 os ident version prefetchPaths"]
    by simp
  then have "fst (Generate os fs dir ident version urlPrefix prefetchPaths) \<noteq> None"
    using a Generate_valid [of ident version fs dir info urlPrefix os prefetchPaths]
    by (auto split: prod.splits option.splits)
  then show "fst (Generate os fs dir ident version urlPrefix prefetchPaths) \<noteq> None"
    "snd (Generate os fs dir ident version urlPrefix prefetchPaths) = None"
    using Generate_error_no_manifest [of os fs dir ident version urlPrefix prefetchPaths]
    by auto
qed

lemma walk_fails_locked: "walk_fails Unix (example_fs tree_locked) (''/data'', []) tree_locked"
  by (simp add: tree_locked_def Join_def path_string_def Join_example Join_unix_data Separator_def HasPrefix_def
      hashFile_example hashFile_locked)

lemma walk_fails_plain: "\<not> walk_fails Unix (example_fs tree_plain) (''/data'', []) tree_plain"
  by (simp add: tree_plain_def Join_def path_string_def Join_example Join_unix_data Separator_def HasPrefix_def
      hashFile_example)

theorem Generate_all_or_nothing_witness:
  "walk_fails Unix (example_fs tree_locked) (''/data'', []) (lookup (example_fs tree_locked) ''/data'')
   \<and> fst (Generate Unix (example_fs tree_locked) ''/data'' ''test'' ''v1'' ''https://example.com'' None)
       = None
   \<and> snd (Generate Unix (example_fs tree_locked) ''/data'' ''test'' ''v1'' ''https://example.com'' None)
       \<noteq> None
   \<and> \<not> walk_fails Unix (example_fs tree_plain) (''/data'', []) (lookup (example_fs tree_plain) ''/data'')
   \<and> fst (Generate Unix (example_fs tree_plain) ''/data'' ''test'' ''v1'' ''https://example.com'' None)
       \<noteq> None
   \<and> snd (Generate Unix (example_fs tree_plain) ''/data'' ''test'' ''v1'' ''https://example.com'' None)
       = None"
  using
    Generate_all_or_nothing [where os = Unix and fs = "example_fs tree_locked"
      and dir = "''/data''" and ident = "''test''" and version = "''v1''"
      and urlPrefix = "''https://example.com''" and prefetchPaths = None]
    Generate_all_or_nothing [where os = Unix and fs = "example_fs tree_plain"
      and dir = "''/data''" and ident = "''test''" and version = "''v1''"
      and urlPrefix = "''https://example.com''" and prefetchPaths = None
      and info = "\<lparr>info_Name = ''data'', info_IsDir = True, info_ModeSymlink = False,
        info_Size = 0\<rparr>"]
    walk_fails_locked walk_fails_plain
  by (simp add: lookup_example os_Stat_examples HasPrefix_def)

section \<open>Generate: the URLs\<close>

lemma TrimSuffix_snoc: "TrimSuffix (p @ ''/'') ''/'' = p"
  by (simp add: TrimSuffix_def)

lemma TrimSuffix_none: "\<not> suffix ''/'' p \<Longrightarrow> TrimSuffix p ''/'' = p"
  by (simp add: TrimSuffix_def)

lemma HasPrefix_snoc_http:
  "\<not> suffix ''/'' p \<Longrightarrow> HasPrefix (p @ ''/'') ''http://'' = HasPrefix p ''http://''"
  by (auto simp: HasPrefix_def suffix_def)

lemma HasPrefix_snoc_https:
  "\<not> suffix ''/'' p \<Longrightarrow> HasPrefix (p @ ''/'') ''https://'' = HasPrefix p ''https://''"
  by (auto simp: HasPrefix_def suffix_def)

lemma Generate_trailing_slash:
  assumes "\<not> suffix ''/'' p"
  shows "Generate os fs dir ident version (p @ ''/'') prefetchPaths =
         Generate os fs dir ident version p prefetchPaths"
  unfolding Generate_def HasPrefix_snoc_http [OF assms] HasPrefix_snoc_https [OF assms]
    TrimSuffix_snoc TrimSuffix_none [OF assms]
  by (rule refl)

text \<open>
  C4. In a generated manifest the URL of every file is the \<open>urlPrefix\<close> with its trailing
  slash stripped, a slash, and the path of the file. A \<open>urlPrefix\<close> with a single trailing
  slash and the same prefix without it give the same result, hence the same URLs.
\<close>

theorem Generate_URL:
  "(Generate os fs dir ident version urlPrefix prefetchPaths = (Some m, None) \<and>
      f \<in> set (elems (Files m)) \<longrightarrow>
        URL f = TrimSuffix urlPrefix ''/'' @ ''/'' @ Path f)
   \<and> (\<not> suffix ''/'' p \<longrightarrow>
        TrimSuffix (p @ ''/'') ''/'' = p \<and> TrimSuffix p ''/'' = p \<and>
        Generate os fs dir ident version (p @ ''/'') prefetchPaths =
          Generate os fs dir ident version p prefetchPaths)"
proof (intro conjI impI)
  assume "Generate os fs dir ident version urlPrefix prefetchPaths = (Some m, None) \<and>
      f \<in> set (elems (Files m))"
  then show "URL f = TrimSuffix urlPrefix ''/'' @ ''/'' @ Path f"
    using Generate_fields [of os fs dir ident version urlPrefix prefetchPaths m None] by blast
next
  assume "\<not> suffix ''/'' p"
  then show "TrimSuffix (p @ ''/'') ''/'' = p" "TrimSuffix p ''/'' = p"
    "Generate os fs dir ident version (p @ ''/'') prefetchPaths =
       Generate os fs dir ident version p prefetchPaths"
    by (simp_all add: TrimSuffix_snoc TrimSuffix_none Generate_trailing_slash)
qed

lemma Generate_bucket_example:
  "Generate Unix (example_fs tree_plain) ''/data'' ''test'' ''v1''
     ''https://bucket.s3.amazonaws.com/path/'' None
   = (Some (manifest_of [file_test_txt ''https://bucket.s3.amazonaws.com/path/test.txt'']), None)"
  by (simp add: Generate_plain_example HasPrefix_def TrimSuffix_def suffix_to_prefix
      manifest_of_def file_test_txt_def)

theorem Generate_URL_witness:
  "Generate Unix (example_fs tree_plain) ''/data'' ''test'' ''v1''
       ''https://bucket.s3.amazonaws.com/path/'' None
     = (Some (manifest_of [file_test_txt ''https://bucket.s3.amazonaws.com/path/test.txt'']), None)
   \<and> URL (file_test_txt ''https://bucket.s3.amazonaws.com/path/test.txt'')
     = TrimSuffix ''https://bucket.s3.amazonaws.com/path/'' ''/'' @ ''/'' @ ''test.txt''
   \<and> Generate Unix (example_fs tree_plain) ''/data'' ''test'' ''v1''
       ''https://bucket.s3.amazonaws.com/path'' None
     = (Some (manifest_of [file_test_txt ''https://bucket.s3.amazonaws.com/path/test.txt'']), None)"
proof -
  let ?M = "manifest_of [file_test_txt ''https://bucket.s3.amazonaws.com/path/test.txt'']"
  let ?F = "file_test_txt ''https://bucket.s3.amazonaws.com/path/test.txt''"
  note inst = Generate_URL [where os = Unix and fs = "example_fs tree_plain" and dir = "''/data''"
      and ident = "''test''" and version = "''v1''"
      and urlPrefix = "''https://bucket.s3.amazonaws.com/path/''" and prefetchPaths = None
      and m = ?M and f = ?F and p = "''https://bucket.s3.amazonaws.com/path''"]
  have g: "Generate Unix (example_fs tree_plain) ''/data'' ''test'' ''v1''
       ''https://bucket.s3.amazonaws.com/path/'' None = (Some ?M, None)"
    by (rule Generate_bucket_example)
  have mem: "?F \<in> set (elems (Files ?M))"
    by (simp add: manifest_of_def elems_def)
  have ns: "\<not> suffix ''/'' ''https://bucket.s3.amazonaws.com/path''"
    by (simp add: suffix_to_prefix)
  have u: "URL ?F = TrimSuffix ''https://bucket.s3.amazonaws.com/path/'' ''/'' @ ''/'' @ Path ?F"
    using inst g mem by blast
  have "Generate Unix (example_fs tree_plain) ''/data'' ''test'' ''v1''
       (''https://bucket.s3.amazonaws.com/path'' @ ''/'') None
     = Generate Unix (example_fs tree_plain) ''/data'' ''test'' ''v1''
       ''https://bucket.s3.amazonaws.com/path'' None"
    using inst ns by blast
  then have e: "Generate Unix (example_fs tree_plain) ''/data'' ''test'' ''v1''
       ''https://bucket.s3.amazonaws.com/path'' None = (Some ?M, None)"
    using g by simp
  have "Path ?F = ''test.txt''" by (simp add: file_test_txt_def)
  with g u e show ?thesis by simp
qed

section \<open>Generate: hidden entries\<close>

text \<open>
  C1, as the code has it. The function of the walk returns at once on a directory, before
  it looks at the name: a directory is never listed, whatever its name, and the walk goes
  on into it. An entry that is not a directory and whose name starts with a dot is
  skipped. The files of a generated manifest are exactly, and in the order of the walk,
  the entries that are neither directories nor symbolic links and whose own name does
  not start with a dot, those below a directory whose name starts with a dot as well: all
  that a directory lists is listed for the tree. So the last segment of the path of every
  file of a generated manifest does not start with a dot; an earlier segment may.
\<close>

theorem Generate_hidden_files_skipped:
  "(info_IsDir i \<or> HasPrefix (info_Name i) ''.'' \<longrightarrow>
      walkFn os fs dir u m0 p (Some i) None = (None, m0))
   \<and> (Generate os fs dir ident version urlPrefix prefetchPaths = (Some m, None) \<longrightarrow>
        map Path (elems (Files m)) =
          map (\<lambda>x. ToSlash os (join_sep (Separator os) (fst x))) (retained [] (lookup fs dir)))
   \<and> (entry \<in> set entries \<longrightarrow>
        set (retained (names @ [node_name entry]) entry)
          \<subseteq> set (retained names (Directory name err entries)))
   \<and> (Generate os fs dir ident version urlPrefix prefetchPaths = (Some m, None) \<and>
      wf_root os (lookup fs dir) \<and> f \<in> set (elems (Files m)) \<longrightarrow>
        \<not> prefix ''.'' (last (splitOn (CHR ''/'') (Path f))))"
proof (intro conjI impI)
  assume "info_IsDir i \<or> HasPrefix (info_Name i) ''.''"
  then show "walkFn os fs dir u m0 p (Some i) None = (None, m0)"
    by (auto simp: walkFn_skip)
next
  assume "Generate os fs dir ident version urlPrefix prefetchPaths = (Some m, None)"
  then have "Files m = Some (map (file_of os fs dir (TrimSuffix urlPrefix ''/''))
      (retained [] (lookup fs dir)))"
    using Generate_Files by blast
  then show "map Path (elems (Files m)) =
      map (\<lambda>x. ToSlash os (join_sep (Separator os) (fst x))) (retained [] (lookup fs dir))"
    by (simp add: elems_def file_of_def comp_def)
next
  assume "entry \<in> set entries"
  then have "set (retained (names @ [node_name entry]) entry) \<subseteq> set (retained_names names entries)"
    by (induction entries) auto
  then show "set (retained (names @ [node_name entry]) entry)
      \<subseteq> set (retained names (Directory name err entries))"
    by simp
next
  assume a: "Generate os fs dir ident version urlPrefix prefetchPaths = (Some m, None) \<and>
      wf_root os (lookup fs dir) \<and> f \<in> set (elems (Files m))"
  then have "paths_ok os m" using Generate_paths_ok by blast
  with a obtain names where names: "names \<noteq> []" "list_all (wf_name os) names"
      "\<not> HasPrefix (last names) ''.''" "Path f = join_sep (CHR ''/'') names"
    unfolding paths_ok_def by blast
  have "\<forall>n \<in> set names. CHR ''/'' \<notin> set n"
    using names(2) by (simp add: list_all_iff wf_name_def)
  with names(1) have "splitOn (CHR ''/'') (join_sep (CHR ''/'') names) = names"
    by (rule splitOn_join_sep)
  with names(3,4) show "\<not> prefix ''.'' (last (splitOn (CHR ''/'') (Path f)))"
    by (simp add: HasPrefix_def)
qed

lemma wf_root_hidden: "wf_root Unix tree_hidden"
  by (simp add: tree_hidden_def wf_name_def Separator_def)

lemma Generate_hidden_example_files:
  "Generate Unix (example_fs tree_hidden) ''/data'' ''test'' ''v1'' ''https://example.com'' None =
     (Some (manifest_of [file_git_config, file_test_txt ''https://example.com/test.txt'']), None)"
  by (simp add: Generate_hidden_example manifest_of_def file_git_config_def file_test_txt_def)

lemma retained_hidden_example:
  "retained [] tree_hidden = [([''.git'', ''config''], 5), ([''test.txt''], 5)]"
  by (simp add: tree_hidden_def HasPrefix_def)

theorem Generate_hidden_files_skipped_witness:
  "walkFn Unix (example_fs tree_hidden) ''/data'' ''https://example.com''
       (manifest_of []) (''/data'', [''.hidden''])
       (Some \<lparr>info_Name = ''.hidden'', info_IsDir = False, info_ModeSymlink = False, info_Size = 5\<rparr>)
       None
     = (None, manifest_of [])
   \<and> Generate Unix (example_fs tree_hidden) ''/data'' ''test'' ''v1'' ''https://example.com'' None =
     (Some (manifest_of [file_git_config, file_test_txt ''https://example.com/test.txt'']), None)
   \<and> retained [] (lookup (example_fs tree_hidden) ''/data'') =
     [([''.git'', ''config''], 5), ([''test.txt''], 5)]
   \<and> map Path [file_git_config, file_test_txt ''https://example.com/test.txt''] =
     [''.git/config'', ''test.txt'']
   \<and> set (retained [''.git''] (Directory ''.git'' None [Plain ''config'' 5]))
     \<subseteq> set (retained [] tree_hidden)
   \<and> wf_root Unix (lookup (example_fs tree_hidden) ''/data'')
   \<and> \<not> prefix ''.'' (last (splitOn (CHR ''/'') (Path file_git_config)))"
proof -
  let ?M = "manifest_of [file_git_config, file_test_txt ''https://example.com/test.txt'']"
  let ?i = "\<lparr>info_Name = ''.hidden'', info_IsDir = False, info_ModeSymlink = False,
        info_Size = 5\<rparr>"
  let ?git = "Directory ''.git'' None [Plain ''config'' 5]"
  let ?entries = "[?git, Plain ''.hidden'' 5, Plain ''test.txt'' 5]"
  note inst = Generate_hidden_files_skipped [where os = Unix and fs = "example_fs tree_hidden"
      and dir = "''/data''" and ident = "''test''" and version = "''v1''"
      and urlPrefix = "''https://example.com''" and prefetchPaths = None
      and m = ?M and f = file_git_config and u = "''https://example.com''"
      and ?m0.0 = "manifest_of []" and p = "(''/data'', [''.hidden''])" and i = ?i
      and entry = ?git and entries = ?entries and names = "[]" and name = "''data''"
      and err = None]
  have g: "Generate Unix (example_fs tree_hidden) ''/data'' ''test'' ''v1'' ''https://example.com''
       None = (Some ?M, None)"
    by (rule Generate_hidden_example_files)
  have wf: "wf_root Unix (lookup (example_fs tree_hidden) ''/data'')"
    by (simp add: lookup_example wf_root_hidden)
  have mem: "file_git_config \<in> set (elems (Files ?M))"
    by (simp add: manifest_of_def elems_def)
  have hid: "info_IsDir ?i \<or> HasPrefix (info_Name ?i) ''.''"
    by (simp add: HasPrefix_def)
  have r: "retained [] (lookup (example_fs tree_hidden) ''/data'') =
      [([''.git'', ''config''], 5), ([''test.txt''], 5)]"
    by (simp add: lookup_example retained_hidden_example)
  have 1: "walkFn Unix (example_fs tree_hidden) ''/data'' ''https://example.com''
       (manifest_of []) (''/data'', [''.hidden'']) (Some ?i) None = (None, manifest_of [])"
    using inst hid by blast
  have "map Path (elems (Files ?M)) =
      map (\<lambda>x. ToSlash Unix (join_sep (Separator Unix) (fst x)))
        (retained [] (lookup (example_fs tree_hidden) ''/data''))"
    using inst g by blast
  then have 2: "map Path [file_git_config, file_test_txt ''https://example.com/test.txt''] =
      [''.git/config'', ''test.txt'']"
    unfolding r by (simp add: manifest_of_def elems_def ToSlash_def Separator_def)
  have "?git \<in> set ?entries" by simp
  then have "set (retained ([] @ [node_name ?git]) ?git)
      \<subseteq> set (retained [] (Directory ''data'' None ?entries))"
    using inst by blast
  then have 3: "set (retained [''.git''] ?git) \<subseteq> set (retained [] tree_hidden)"
    by (simp add: tree_hidden_def)
  have 4: "\<not> prefix ''.'' (last (splitOn (CHR ''/'') (Path file_git_config)))"
    using inst g wf mem by blast
  from 1 g r 2 3 wf 4 show ?thesis by blast
qed

text \<open>
  The claim C1 as the specification states it fails: the file \<open>config\<close> in the directory
  \<open>.git\<close> is listed, with a path whose first segment starts with a dot.
\<close>

theorem Generate_dot_directory_counterexample:
  "Generate Unix (example_fs tree_hidden) ''/data'' ''test'' ''v1'' ''https://example.com'' None =
     (Some (manifest_of [file_git_config, file_test_txt ''https://example.com/test.txt'']), None)
   \<and> Path file_git_config = ''.git/config''
   \<and> splitOn (CHR ''/'') ''.git/config'' = [''.git'', ''config'']
   \<and> prefix ''.'' ''.git''"
  by (simp add: Generate_hidden_example_files file_git_config_def)

section \<open>Generate: slashes in the URLs\<close>

lemma suffix_single: "suffix [c] xs \<longleftrightarrow> xs \<noteq> [] \<and> last xs = c"
  by (cases xs rule: rev_cases) auto

lemma TrimSuffix_append:
  assumes "rest \<noteq> []"
  shows "TrimSuffix (a @ rest) [c] = a @ TrimSuffix rest [c]"
proof (cases rest rule: rev_cases)
  case Nil
  with assms show ?thesis by simp
next
  case (snoc ys y)
  have "suffix [c] (a @ ys @ [y]) = suffix [c] (ys @ [y])"
    using suffix_single [of c "a @ ys @ [y]"] suffix_single [of c "ys @ [y]"] by simp
  with snoc show ?thesis by (simp add: TrimSuffix_def)
qed

lemma TrimSuffix_slash_props:
  assumes "rest \<noteq> []" "hd rest \<noteq> CHR ''/''" "\<not> double_slash rest"
  shows "TrimSuffix rest ''/'' \<noteq> [] \<and> last (TrimSuffix rest ''/'') \<noteq> CHR ''/'' \<and>
         \<not> double_slash (TrimSuffix rest ''/'')"
proof (cases rest rule: rev_cases)
  case Nil
  with assms(1) show ?thesis by simp
next
  case (snoc ys y)
  show ?thesis
  proof (cases "y = CHR ''/''")
    case False
    with snoc assms show ?thesis by (simp add: TrimSuffix_def)
  next
    case True
    with snoc have t: "TrimSuffix rest ''/'' = ys" by (simp add: TrimSuffix_def)
    have ys: "ys \<noteq> []" using snoc True assms(2) by (cases ys) auto
    have "\<not> double_slash (ys @ ''/'')" using assms(3) snoc True by simp
    then have "\<not> double_slash ys" "last ys \<noteq> CHR ''/''"
      using ys by (simp_all add: double_slash_append)
    with t ys show ?thesis by simp
  qed
qed

lemma last_join_sep:
  "names \<noteq> [] \<Longrightarrow> \<forall>n \<in> set names. n \<noteq> [] \<Longrightarrow> last (join_sep c names) = last (last names)"
proof (induction c names rule: join_sep.induct)
  case (3 c x y ys)
  then have "join_sep c (y # ys) \<noteq> []"
    using join_sep_Nil_iff [of "y # ys" c] by simp
  with 3 show ?case by simp
qed simp_all

lemma joined_path_props:
  assumes "names \<noteq> []" "list_all (wf_name os) names"
  shows "join_sep (CHR ''/'') names \<noteq> [] \<and> hd (join_sep (CHR ''/'') names) \<noteq> CHR ''/'' \<and>
         last (join_sep (CHR ''/'') names) \<noteq> CHR ''/'' \<and>
         \<not> double_slash (join_sep (CHR ''/'') names)"
proof -
  have all: "\<forall>n \<in> set names. n \<noteq> [] \<and> CHR ''/'' \<notin> set n"
    using assms(2) by (simp add: list_all_iff wf_name_def)
  then have ne: "\<forall>n \<in> set names. n \<noteq> []" by simp
  have 1: "join_sep (CHR ''/'') names \<noteq> []"
    using join_sep_Nil_iff [OF ne, of "CHR ''/''"] assms(1) by simp
  have "hd names \<in> set names" "last names \<in> set names"
    using assms(1) by simp_all
  then have "hd (hd names) \<noteq> CHR ''/''" "last (last names) \<noteq> CHR ''/''"
    using all by (metis hd_in_set, metis last_in_set)
  then have 2: "hd (join_sep (CHR ''/'') names) \<noteq> CHR ''/''"
    and 3: "last (join_sep (CHR ''/'') names) \<noteq> CHR ''/''"
    using hd_join_sep [OF assms(1) ne] last_join_sep [OF assms(1) ne] by simp_all
  have 4: "\<not> double_slash (join_sep (CHR ''/'') names)"
    using all by (rule join_slash_no_double_slash)
  from 1 2 3 4 show ?thesis by simp
qed

text \<open>
  C3, as the code has it. The URL of a file is the \<open>urlPrefix\<close> with one trailing slash
  removed, if it has one, then a slash and the path of the file. When the part of the
  \<open>urlPrefix\<close> after the scheme is not empty, does not start with a slash and has no two
  slashes in a row, the same holds of the URL, the stripped prefix does not end in a slash
  and neither does the URL.
\<close>

theorem Generate_URL_slashes:
  "Generate os fs dir ident version urlPrefix prefetchPaths = (Some m, None) \<and>
   wf_root os (lookup fs dir) \<and> f \<in> set (elems (Files m)) \<and>
   urlPrefix = scheme @ rest \<and> (scheme = ''http://'' \<or> scheme = ''https://'') \<and>
   rest \<noteq> [] \<and> hd rest \<noteq> CHR ''/'' \<and> \<not> double_slash rest
   \<longrightarrow> URL f = scheme @ TrimSuffix rest ''/'' @ ''/'' @ Path f
     \<and> \<not> double_slash (TrimSuffix rest ''/'' @ ''/'' @ Path f)
     \<and> hd (TrimSuffix rest ''/'' @ ''/'' @ Path f) \<noteq> CHR ''/''
     \<and> \<not> suffix ''/'' (TrimSuffix urlPrefix ''/'')
     \<and> \<not> suffix ''/'' (URL f)"
proof
  assume a: "Generate os fs dir ident version urlPrefix prefetchPaths = (Some m, None) \<and>
   wf_root os (lookup fs dir) \<and> f \<in> set (elems (Files m)) \<and>
   urlPrefix = scheme @ rest \<and> (scheme = ''http://'' \<or> scheme = ''https://'') \<and>
   rest \<noteq> [] \<and> hd rest \<noteq> CHR ''/'' \<and> \<not> double_slash rest"
  let ?t = "TrimSuffix rest ''/''"
  have url: "URL f = TrimSuffix urlPrefix ''/'' @ ''/'' @ Path f"
    using a Generate_fields [of os fs dir ident version urlPrefix prefetchPaths m None] by blast
  have strip: "TrimSuffix urlPrefix ''/'' = scheme @ ?t"
    using a TrimSuffix_append [of rest scheme "CHR ''/''"] by simp
  have t: "?t \<noteq> []" "last ?t \<noteq> CHR ''/''" "\<not> double_slash ?t"
    using a TrimSuffix_slash_props [of rest] by simp_all
  have "paths_ok os m" using a Generate_paths_ok by blast
  with a obtain names where names: "names \<noteq> []" "list_all (wf_name os) names"
      "Path f = join_sep (CHR ''/'') names"
    unfolding paths_ok_def by blast
  have p: "Path f \<noteq> []" "hd (Path f) \<noteq> CHR ''/''" "last (Path f) \<noteq> CHR ''/''"
      "\<not> double_slash (Path f)"
    using joined_path_props [OF names(1,2)] names(3) by simp_all
  have "\<not> double_slash (CHR ''/'' # Path f)"
    using p by (cases "Path f") auto
  then have ds: "\<not> double_slash (?t @ ''/'' @ Path f)"
    using t by (simp add: double_slash_append)
  have h: "hd (?t @ ''/'' @ Path f) \<noteq> CHR ''/''"
  proof -
    have "hd ?t = hd rest" using a by (cases rest rule: rev_cases) (auto simp: TrimSuffix_def hd_append)
    with t(1) a show ?thesis by simp
  qed
  have s1: "\<not> suffix ''/'' (TrimSuffix urlPrefix ''/'')"
    using strip t by (simp add: suffix_single)
  have s2: "\<not> suffix ''/'' (URL f)"
    using url p by (simp add: suffix_single)
  from url strip ds h s1 s2
  show "URL f = scheme @ ?t @ ''/'' @ Path f
     \<and> \<not> double_slash (?t @ ''/'' @ Path f)
     \<and> hd (?t @ ''/'' @ Path f) \<noteq> CHR ''/''
     \<and> \<not> suffix ''/'' (TrimSuffix urlPrefix ''/'')
     \<and> \<not> suffix ''/'' (URL f)"
    by simp
qed

lemma wf_root_plain: "wf_root Unix tree_plain"
  by (simp add: tree_plain_def wf_name_def Separator_def)

lemma Generate_slash_example:
  "Generate Unix (example_fs tree_plain) ''/data'' ''test'' ''v1'' ''https://example.com/models/''
     None
   = (Some (manifest_of [file_test_txt ''https://example.com/models/test.txt'']), None)"
  by (simp add: Generate_plain_example HasPrefix_def TrimSuffix_def suffix_to_prefix
      manifest_of_def file_test_txt_def)

theorem Generate_URL_slashes_witness:
  "Generate Unix (example_fs tree_plain) ''/data'' ''test'' ''v1'' ''https://example.com/models/''
       None
     = (Some (manifest_of [file_test_txt ''https://example.com/models/test.txt'']), None)
   \<and> wf_root Unix (lookup (example_fs tree_plain) ''/data'')
   \<and> URL (file_test_txt ''https://example.com/models/test.txt'')
       = ''https://'' @ ''example.com/models'' @ ''/'' @ ''test.txt''
   \<and> \<not> double_slash ''example.com/models/test.txt''
   \<and> \<not> suffix ''/'' (TrimSuffix ''https://example.com/models/'' ''/'')"
proof -
  let ?F = "file_test_txt ''https://example.com/models/test.txt''"
  let ?M = "manifest_of [?F]"
  note inst = Generate_URL_slashes [where os = Unix and fs = "example_fs tree_plain"
      and dir = "''/data''" and ident = "''test''" and version = "''v1''"
      and urlPrefix = "''https://example.com/models/''" and prefetchPaths = None
      and m = ?M and f = ?F and scheme = "''https://''" and rest = "''example.com/models/''"]
  have g: "Generate Unix (example_fs tree_plain) ''/data'' ''test'' ''v1''
       ''https://example.com/models/'' None = (Some ?M, None)"
    by (rule Generate_slash_example)
  have wf: "wf_root Unix (lookup (example_fs tree_plain) ''/data'')"
    by (simp add: lookup_example wf_root_plain)
  have mem: "?F \<in> set (elems (Files ?M))"
    by (simp add: manifest_of_def elems_def)
  have hyp: "''https://example.com/models/'' = ''https://'' @ ''example.com/models/''"
    "''example.com/models/'' \<noteq> []" "hd ''example.com/models/'' \<noteq> CHR ''/''"
    "\<not> double_slash ''example.com/models/''"
    by simp_all
  have t: "TrimSuffix ''example.com/models/'' ''/'' = ''example.com/models''"
    by (simp add: TrimSuffix_def suffix_to_prefix)
  have p: "Path ?F = ''test.txt''" by (simp add: file_test_txt_def)
  have c: "URL ?F = ''https://'' @ TrimSuffix ''example.com/models/'' ''/'' @ ''/'' @ Path ?F
     \<and> \<not> double_slash (TrimSuffix ''example.com/models/'' ''/'' @ ''/'' @ Path ?F)
     \<and> hd (TrimSuffix ''example.com/models/'' ''/'' @ ''/'' @ Path ?F) \<noteq> CHR ''/''
     \<and> \<not> suffix ''/'' (TrimSuffix ''https://example.com/models/'' ''/'')
     \<and> \<not> suffix ''/'' (URL ?F)"
    using inst g wf mem hyp by blast
  then have "URL ?F = ''https://'' @ ''example.com/models'' @ ''/'' @ ''test.txt''"
    "\<not> double_slash ''example.com/models/test.txt''"
    "\<not> suffix ''/'' (TrimSuffix ''https://example.com/models/'' ''/'')"
    unfolding t p by simp_all
  with g wf show ?thesis by blast
qed

text \<open>
  The claim C3 as the specification states it fails: a \<open>urlPrefix\<close> that ends in two
  slashes is accepted, only one of them is removed, and the URL has two slashes in a row
  after the scheme.
\<close>

theorem Generate_URL_double_slash_counterexample:
  "Generate Unix (example_fs tree_plain) ''/data'' ''test'' ''v1'' ''https://example.com//'' None
     = (Some (manifest_of [file_test_txt ''https://example.com//test.txt'']), None)
   \<and> URL (file_test_txt ''https://example.com//test.txt'') = ''https://example.com//test.txt''
   \<and> drop (length ''https://'') ''https://example.com//test.txt'' = ''example.com//test.txt''
   \<and> double_slash ''example.com//test.txt''"
  by (simp add: Generate_plain_example HasPrefix_def TrimSuffix_def suffix_to_prefix
      manifest_of_def file_test_txt_def)

section \<open>hashFile: the digest\<close>

text \<open>
  C6. For a file that opens and reads to its end without an error, \<open>hashFile\<close> returns
  the SHA-256 digest of all the bytes read, in whatever chunks they arrive, as 64
  hexadecimal digits in lower case, and no error. The result depends on the bytes only:
  two files with the same bytes, under any paths and in any file systems, have the same
  digest. The digest of \<open>test\<close> followed by a newline is
  \<open>f2ca1bb6c7e907d06dafe4687e579fce76b37e4e93b7605022da52e6ccc26fd2\<close>. The files of a
  generated manifest are the listed entries of the tree, one for one and in order, and
  the field \<open>SHA256\<close> of each is the digest, of 64 digits, of the bytes of that very
  entry: of the file at the path that the walk built for it, whose path from the root is
  the field \<open>Path\<close>.
\<close>

theorem hashFile_sha256:
  "(os_Open fs path = Inr (OpenFile chunks None) \<longrightarrow>
      hashFile fs path = (hex_EncodeToString (sha256_Sum256 (concat chunks)), None) \<and>
      length (fst (hashFile fs path)) = 64 \<and>
      set (fst (hashFile fs path)) \<subseteq> set ''0123456789abcdef'')
   \<and> (os_Open fs path = Inr (OpenFile chunks None) \<and>
       os_Open fs' path' = Inr (OpenFile chunks' None) \<and> concat chunks = concat chunks' \<longrightarrow>
         hashFile fs path = hashFile fs' path')
   \<and> hex_EncodeToString (sha256_Sum256 [CHR ''t'', CHR ''e'', CHR ''s'', CHR ''t'', CHR 0x0A])
       = ''f2ca1bb6c7e907d06dafe4687e579fce76b37e4e93b7605022da52e6ccc26fd2''
   \<and> (Generate os fs dir ident version urlPrefix prefetchPaths = (Some m, None) \<longrightarrow>
         list_all2
           (\<lambda>f x. Path f = ToSlash os (join_sep (Separator os) (fst x)) \<and>
              (\<exists>bs. file_bytes fs (path_string fs (dir, fst x)) = Some bs \<and>
                 SHA256 f = hex_EncodeToString (sha256_Sum256 bs)) \<and>
              length (SHA256 f) = 64 \<and> set (SHA256 f) \<subseteq> set ''0123456789abcdef'')
           (elems (Files m)) (retained [] (lookup fs dir)))"
proof (intro conjI impI)
  assume o: "os_Open fs path = Inr (OpenFile chunks None)"
  then show h: "hashFile fs path = (hex_EncodeToString (sha256_Sum256 (concat chunks)), None)"
    by (rule hashFile_readable)
  show "length (fst (hashFile fs path)) = 64"
    by (simp add: h length_hex_EncodeToString length_sha256_Sum256)
  show "set (fst (hashFile fs path)) \<subseteq> set ''0123456789abcdef''"
    using set_hex_EncodeToString [of "sha256_Sum256 (concat chunks)"]
    by (simp add: h hextable_def)
next
  assume "os_Open fs path = Inr (OpenFile chunks None) \<and>
       os_Open fs' path' = Inr (OpenFile chunks' None) \<and> concat chunks = concat chunks'"
  then show "hashFile fs path = hashFile fs' path'"
    by (simp add: hashFile_readable)
next
  show "hex_EncodeToString (sha256_Sum256 [CHR ''t'', CHR ''e'', CHR ''s'', CHR ''t'', CHR 0x0A])
       = ''f2ca1bb6c7e907d06dafe4687e579fce76b37e4e93b7605022da52e6ccc26fd2''"
    by (simp only: sha256_Sum256_test hex_test)
next
  let ?u = "TrimSuffix urlPrefix ''/''"
  let ?R = "\<lambda>f x. Path f = ToSlash os (join_sep (Separator os) (fst x)) \<and>
      (\<exists>bs. file_bytes fs (path_string fs (dir, fst x)) = Some bs \<and>
         SHA256 f = hex_EncodeToString (sha256_Sum256 bs)) \<and>
      length (SHA256 f) = 64 \<and> set (SHA256 f) \<subseteq> set ''0123456789abcdef''"
  assume "Generate os fs dir ident version urlPrefix prefetchPaths = (Some m, None)"
  from Generate_Files [OF this]
  have files: "Files m = Some (map (file_of os fs dir ?u) (retained [] (lookup fs dir)))"
    and ok: "\<forall>x \<in> set (retained [] (lookup fs dir)).
        snd (hashFile fs (path_string fs (dir, fst x))) = None"
    by simp_all
  have "?R (file_of os fs dir ?u x) x" if "x \<in> set (retained [] (lookup fs dir))" for x
  proof -
    from ok that obtain bs where bs: "file_bytes fs (path_string fs (dir, fst x)) = Some bs"
      using file_bytes_hashFile(1) by blast
    then have s: "SHA256 (file_of os fs dir ?u x) = hex_EncodeToString (sha256_Sum256 bs)"
      by (simp add: file_of_def file_bytes_hashFile(2))
    have "length (SHA256 (file_of os fs dir ?u x)) = 64"
      by (simp add: s length_hex_EncodeToString length_sha256_Sum256)
    moreover have "set (SHA256 (file_of os fs dir ?u x)) \<subseteq> set ''0123456789abcdef''"
      using set_hex_EncodeToString [of "sha256_Sum256 bs"] by (simp add: s hextable_def)
    moreover have "Path (file_of os fs dir ?u x) = ToSlash os (join_sep (Separator os) (fst x))"
      by (simp add: file_of_def)
    ultimately show ?thesis using bs s by blast
  qed
  then have "list_all2 ?R (map (file_of os fs dir ?u) (retained [] (lookup fs dir)))
      (retained [] (lookup fs dir))"
    by (simp add: list_all2_map1 list_all2_same)
  then show "list_all2 ?R (elems (Files m)) (retained [] (lookup fs dir))"
    by (simp add: files elems_def)
qed

lemma retained_plain_example: "retained [] tree_plain = [([''test.txt''], 5)]"
  by (simp add: tree_plain_def HasPrefix_def)

lemma path_string_single:
  "path_string single_fs (''/data/'', [''test.txt'']) = ''/data/test.txt''"
  by (simp add: path_string_def single_fs_def Join_unix_def Clean_unix_def)

lemma file_bytes_single:
  "file_bytes single_fs ''/data/test.txt'' = Some test_bytes"
  "file_bytes single_fs ''test.txt'' = None"
  "file_bytes single_fs ''/data//test.txt'' = None"
  by (simp_all add: file_bytes_def single_fs_def test_bytes_def)

lemma hashFile_single: "hashFile single_fs ''/data/test.txt'' = (test_digest, None)"
proof -
  have "os_Open single_fs ''/data/test.txt'' =
      Inr (OpenFile [''te'', [CHR ''s'', CHR ''t'', CHR 0x0A]] None)"
    by (simp add: single_fs_def)
  then have "hashFile single_fs ''/data/test.txt'' =
      (hex_EncodeToString (sha256_Sum256 (concat [''te'', [CHR ''s'', CHR ''t'', CHR 0x0A]])), None)"
    by (rule hashFile_readable)
  then show ?thesis by (simp add: sha256_Sum256_test hex_test test_digest_def)
qed

lemma walk_single_example:
  "walk (walkFn Unix single_fs ''/data/'' u) (''/data/'', []) tree_plain
     (manifest0 Unix ''test'' ''v1'' None) =
   (None,
    \<lparr>ArtifactID = ''test'', Version = ''v1'', MountPath = ''/mnt/mlmodel'', Prefetch = Some [],
     Files = Some [\<lparr>Path = ''test.txt'', URL = u @ ''/test.txt'', Size = 5,
                    SHA256 = test_digest, Compression = ''none''\<rparr>]\<rparr>)"
proof -
  have "path_string single_fs (Join (''/data/'', []) ''test.txt'') = ''/data/test.txt''"
    by (simp add: Join_def path_string_single)
  then show ?thesis
    by (simp add: tree_plain_def walkFn_def Rel_def Join_def ToSlash_def Separator_def
        HasPrefix_def elems_def manifest0_def normalizePrefetchPaths_def Let_def hashFile_single)
qed

lemma Generate_single_example:
  "Generate Unix single_fs ''/data/'' ''test'' ''v1'' ''https://bucket.s3.amazonaws.com/path/'' None
   = (Some (manifest_of [file_test_txt ''https://bucket.s3.amazonaws.com/path/test.txt'']), None)"
proof -
  have l: "lookup single_fs ''/data/'' = tree_plain" by (simp add: single_fs_def)
  show ?thesis
    by (simp add: Generate_valid [where info = "\<lparr>info_Name = ''data'', info_IsDir = True,
          info_ModeSymlink = False, info_Size = 0\<rparr>"] l os_Stat_examples walk_single_example
        HasPrefix_def TrimSuffix_def suffix_to_prefix manifest_of_def file_test_txt_def)
qed

theorem hashFile_sha256_witness:
  "os_Open (example_fs tree_plain) ''/data/test.txt''
     = Inr (OpenFile [''te'', [CHR ''s'', CHR ''t'', CHR 0x0A]] None)
   \<and> hashFile (example_fs tree_plain) ''/data/test.txt''
     = (''f2ca1bb6c7e907d06dafe4687e579fce76b37e4e93b7605022da52e6ccc26fd2'', None)
   \<and> hashFile (example_fs tree_plain) ''/data/test.txt''
     = hashFile (example_fs tree_hidden) ''/data/.git/config''
   \<and> Generate Unix single_fs ''/data/'' ''test'' ''v1''
       ''https://bucket.s3.amazonaws.com/path/'' None
     = (Some (manifest_of [file_test_txt ''https://bucket.s3.amazonaws.com/path/test.txt'']), None)
   \<and> retained [] (lookup single_fs ''/data/'') = [([''test.txt''], 5)]
   \<and> path_string single_fs (''/data/'', [''test.txt'']) = ''/data/test.txt''
   \<and> file_bytes single_fs ''/data/test.txt'' = Some test_bytes
   \<and> file_bytes single_fs ''test.txt'' = None
   \<and> file_bytes single_fs ''/data//test.txt'' = None
   \<and> SHA256 (file_test_txt ''https://bucket.s3.amazonaws.com/path/test.txt'')
     = hex_EncodeToString (sha256_Sum256 test_bytes)
   \<and> hex_EncodeToString (sha256_Sum256 test_bytes)
     = ''f2ca1bb6c7e907d06dafe4687e579fce76b37e4e93b7605022da52e6ccc26fd2''"
proof -
  let ?F = "file_test_txt ''https://bucket.s3.amazonaws.com/path/test.txt''"
  let ?M = "manifest_of [?F]"
  let ?fs = "example_fs tree_plain"
  let ?chunks = "[''te'', [CHR ''s'', CHR ''t'', CHR 0x0A]]"
  note inst = hashFile_sha256 [where fs = ?fs and path = "''/data/test.txt''"
      and chunks = ?chunks and fs' = "example_fs tree_hidden" and path' = "''/data/.git/config''"
      and chunks' = ?chunks]
  note gen = hashFile_sha256 [where fs = single_fs and os = Unix and dir = "''/data/''"
      and ident = "''test''" and version = "''v1''"
      and urlPrefix = "''https://bucket.s3.amazonaws.com/path/''"
      and prefetchPaths = None and m = ?M]
  have o: "os_Open ?fs ''/data/test.txt'' = Inr (OpenFile ?chunks None)"
    "os_Open (example_fs tree_hidden) ''/data/.git/config'' = Inr (OpenFile ?chunks None)"
    by (simp_all add: example_fs_def)
  have c: "concat ?chunks = [CHR ''t'', CHR ''e'', CHR ''s'', CHR ''t'', CHR 0x0A]"
    by simp
  have g: "Generate Unix single_fs ''/data/'' ''test'' ''v1''
      ''https://bucket.s3.amazonaws.com/path/'' None = (Some ?M, None)"
    by (rule Generate_single_example)
  have r: "retained [] (lookup single_fs ''/data/'') = [([''test.txt''], 5)]"
    by (simp add: single_fs_def retained_plain_example)
  note ps = path_string_single
  note fb = file_bytes_single
  have "hashFile ?fs ''/data/test.txt''
      = (hex_EncodeToString (sha256_Sum256 (concat ?chunks)), None)"
    using inst o by blast
  moreover have d: "hex_EncodeToString (sha256_Sum256 (concat ?chunks))
      = ''f2ca1bb6c7e907d06dafe4687e579fce76b37e4e93b7605022da52e6ccc26fd2''"
    unfolding c using inst by blast
  ultimately have 1: "hashFile ?fs ''/data/test.txt''
      = (''f2ca1bb6c7e907d06dafe4687e579fce76b37e4e93b7605022da52e6ccc26fd2'', None)"
    by simp
  have 2: "hashFile ?fs ''/data/test.txt''
     = hashFile (example_fs tree_hidden) ''/data/.git/config''"
    using inst o by blast
  have "list_all2
      (\<lambda>f x. Path f = ToSlash Unix (join_sep (Separator Unix) (fst x)) \<and>
         (\<exists>bs. file_bytes single_fs (path_string single_fs (''/data/'', fst x)) = Some bs \<and>
            SHA256 f = hex_EncodeToString (sha256_Sum256 bs)) \<and>
         length (SHA256 f) = 64 \<and> set (SHA256 f) \<subseteq> set ''0123456789abcdef'')
      (elems (Files ?M)) (retained [] (lookup single_fs ''/data/''))"
    using gen g by blast
  then have "\<exists>bs. file_bytes single_fs (path_string single_fs (''/data/'', [''test.txt''])) = Some bs \<and>
      SHA256 ?F = hex_EncodeToString (sha256_Sum256 bs)"
    unfolding r by (simp add: manifest_of_def elems_def)
  then have 3: "SHA256 ?F = hex_EncodeToString (sha256_Sum256 test_bytes)"
    unfolding ps fb(1) by simp
  have 4: "hex_EncodeToString (sha256_Sum256 test_bytes)
      = ''f2ca1bb6c7e907d06dafe4687e579fce76b37e4e93b7605022da52e6ccc26fd2''"
    using d by (simp add: test_bytes_def)
  from o(1) 1 2 g r ps fb 3 4 show ?thesis by blast
qed

section \<open>UTF-8: the size of a rune\<close>

lemma rune_len_le: "rune_len s \<le> length s"
  by (cases s) (auto simp: Let_def split: list.splits)

lemma rune_len_cases:
  "rune_len s = 0 \<or> rune_len s = 1 \<or> rune_len s = 2 \<or> rune_len s = 3 \<or> rune_len s = 4"
  by (cases s) (auto simp: Let_def split: list.splits)

lemma rune_len_1: "rune_len (c # cs) = 1 \<longleftrightarrow> byte c < 0x80"
  by (auto simp: Let_def split: list.splits)

lemma rune_len_2:
  "rune_len (c # cs) = 2 \<longleftrightarrow>
     0xC2 \<le> byte c \<and> byte c \<le> 0xDF \<and> (\<exists>c1 r. cs = c1 # r \<and> cont c1)"
  by (auto simp: Let_def split: list.splits)

lemma rune_len_3:
  "rune_len (c # cs) = 3 \<longleftrightarrow>
     0xE0 \<le> byte c \<and> byte c \<le> 0xEF \<and>
     (\<exists>c1 c2 r. cs = c1 # c2 # r \<and> (if byte c = 0xE0 then 0xA0 else 0x80) \<le> byte c1 \<and>
        byte c1 \<le> (if byte c = 0xED then 0x9F else 0xBF) \<and> cont c2)"
  by (auto simp: Let_def split: list.splits)

lemma rune_len_4:
  "rune_len (c # cs) = 4 \<longleftrightarrow>
     0xF0 \<le> byte c \<and> byte c \<le> 0xF4 \<and>
     (\<exists>c1 c2 c3 r. cs = c1 # c2 # c3 # r \<and> (if byte c = 0xF0 then 0x90 else 0x80) \<le> byte c1 \<and>
        byte c1 \<le> (if byte c = 0xF4 then 0x8F else 0xBF) \<and> cont c2 \<and> cont c3)"
  by (auto simp: Let_def split: list.splits)

declare rune_len.simps(2) [simp del]

text \<open>The size found at the head of a string depends on the bytes of the rune only.\<close>

lemma rune_len_take:
  assumes "rune_len (c # cs) \<noteq> 0"
  shows "rune_len (c # take (rune_len (c # cs) - 1) cs @ x) = rune_len (c # cs)"
proof -
  consider "rune_len (c # cs) = 1" | "rune_len (c # cs) = 2" | "rune_len (c # cs) = 3"
    | "rune_len (c # cs) = 4"
    using rune_len_cases [of "c # cs"] assms by blast
  then show ?thesis
  proof cases
    case 1
    then have "rune_len (c # x) = 1" by (simp only: rune_len_1)
    with 1 show ?thesis by simp
  next
    case 2
    then obtain c1 r where "0xC2 \<le> byte c" "byte c \<le> 0xDF" "cs = c1 # r" "cont c1"
      unfolding rune_len_2 by blast
    then have "rune_len (c # c1 # x) = 2" unfolding rune_len_2 by blast
    with 2 \<open>cs = c1 # r\<close> show ?thesis by simp
  next
    case 3
    then obtain c1 c2 r where a: "0xE0 \<le> byte c" "byte c \<le> 0xEF" "cs = c1 # c2 # r"
      "(if byte c = 0xE0 then 0xA0 else 0x80) \<le> byte c1"
      "byte c1 \<le> (if byte c = 0xED then 0x9F else 0xBF)" "cont c2"
      unfolding rune_len_3 by blast
    then have "rune_len (c # c1 # c2 # x) = 3" unfolding rune_len_3 by blast
    with 3 a(3) show ?thesis by (simp add: numeral_3_eq_3)
  next
    case 4
    then obtain c1 c2 c3 r where a: "0xF0 \<le> byte c" "byte c \<le> 0xF4" "cs = c1 # c2 # c3 # r"
      "(if byte c = 0xF0 then 0x90 else 0x80) \<le> byte c1"
      "byte c1 \<le> (if byte c = 0xF4 then 0x8F else 0xBF)" "cont c2" "cont c3"
      unfolding rune_len_4 by blast
    then have "rune_len (c # c1 # c2 # c3 # x) = 4" unfolding rune_len_4 by blast
    with 4 a(3) show ?thesis by (simp add: eval_nat_numeral)
  qed
qed

lemma byte_less_256: "byte c < 256"
  by (simp add: byte_def of_char_less_256)

lemma char_of_byte: "char_of (byte c) = c"
  by (simp add: byte_def)

lemma byte_dquote: "byte dquote = 0x22"
  by (simp add: byte_def dquote_def)

lemma byte_bslash: "byte bslash = 0x5C"
  by (simp add: byte_def bslash_def)

section \<open>JSON strings: reading what was written\<close>

lemma hexval_hexdigit: "n < 16 \<Longrightarrow> hexval (hexdigit n) = Some n"
proof -
  assume "n < 16"
  then have "n \<in> set [0..<16]" by simp
  also have "[0..<16] = [0, 1, 2, 3, 4, 5, 6, 7, 8, 9, 10, 11, 12, 13, 14, 15 :: nat]"
    by (simp add: upt_rec)
  finally show ?thesis
    by (auto simp: hexval_def hexdigit_def hextable_def byte_def Let_def)
qed

lemma hex4_byte:
  "hex4 (CHR ''0'') (CHR ''0'') (hexdigit (byte c div 16)) (hexdigit (byte c mod 16)) = Some (byte c)"
proof -
  have "byte c div 16 < 16" using byte_less_256 [of c] by (simp add: less_mult_imp_div_less)
  moreover have "hexval (CHR ''0'') = Some 0" by (simp add: hexval_def byte_def)
  ultimately show ?thesis by (simp add: hex4_def hexval_hexdigit)
qed

lemma EncodeRune_ascii: "byte c < 0x80 \<Longrightarrow> EncodeRune (byte c) = [c]"
  by (simp add: EncodeRune_def char_of_byte)

lemma hex4_fffd: "hex4 (CHR ''f'') (CHR ''f'') (CHR ''f'') (CHR ''d'') = Some 0xFFFD"
  by (simp add: hex4_def hexval_def byte_def)

lemma hex4_2028: "hex4 (CHR ''2'') (CHR ''0'') (CHR ''2'') (CHR ''8'') = Some 0x2028"
  by (simp add: hex4_def hexval_def byte_def)

lemma hex4_2029: "hex4 (CHR ''2'') (CHR ''0'') (CHR ''2'') (CHR ''9'') = Some 0x2029"
  by (simp add: hex4_def hexval_def byte_def)

lemma EncodeRune_fffd: "EncodeRune 0xFFFD = replacement"
  by (simp add: EncodeRune_def replacement_def char_of_def bit_Suc_0_iff)

lemma EncodeRune_2028: "EncodeRune 0x2028 = [CHR 0xE2, CHR 0x80, CHR 0xA8]"
  by (simp add: EncodeRune_def char_of_def bit_Suc_0_iff)

lemma EncodeRune_2029: "EncodeRune 0x2029 = [CHR 0xE2, CHR 0x80, CHR 0xA9]"
  by (simp add: EncodeRune_def char_of_def bit_Suc_0_iff)

lemma utf8_coerce_ascii: "byte c < 0x80 \<Longrightarrow> utf8_coerce (c # cs) = c # utf8_coerce cs"
  using rune_len_1 [of c cs] by simp

lemma unquote_plain:
  assumes "c \<noteq> dquote" "c \<noteq> bslash" "0x20 \<le> byte c" "byte c < 0x80"
  shows "unquote_body (c # cs) =
     (case unquote_body cs of None \<Rightarrow> None | Some (s, rest) \<Rightarrow> Some (c # s, rest))"
  using assms by simp

lemma unquote_short:
  assumes "e \<noteq> CHR ''u''"
    and "(if e = dquote \<or> e = bslash \<or> e = CHR ''/'' then Some e
          else if e = CHR ''b'' then Some (CHR 0x08)
          else if e = CHR ''f'' then Some (CHR 0x0C)
          else if e = CHR ''n'' then Some (CHR 0x0A)
          else if e = CHR ''r'' then Some (CHR 0x0D)
          else if e = CHR ''t'' then Some (CHR 0x09)
          else None) = Some x"
  shows "unquote_body (bslash # e # r) =
     (case unquote_body r of None \<Rightarrow> None | Some (s, rest) \<Rightarrow> Some (x # s, rest))"
proof -
  have "bslash \<noteq> dquote" by (simp add: bslash_def dquote_def)
  then show ?thesis using assms by (simp del: unquote_body.simps add: unquote_body.simps(2) [of bslash])
qed

lemma unquote_u:
  assumes "hex4 a b c d = Some rr" "\<not> (0xD800 \<le> rr \<and> rr < 0xDC00)"
  shows "unquote_body (bslash # CHR ''u'' # a # b # c # d # r) =
     (case unquote_body r of None \<Rightarrow> None | Some (s, rest) \<Rightarrow> Some (EncodeRune rr @ s, rest))"
proof -
  have "bslash \<noteq> dquote" by (simp add: bslash_def dquote_def)
  then show ?thesis using assms
    by (cases "rr < 0xD800")
       (simp_all del: unquote_body.simps add: unquote_body.simps(2) [of bslash])
qed

lemma unquote_invalid:
  assumes "\<not> byte c < 0x80" "rune_len (c # cs) = 0"
  shows "unquote_body (c # cs) =
     (case unquote_body cs of None \<Rightarrow> None | Some (s, rest) \<Rightarrow> Some (replacement @ s, rest))"
proof -
  have "c \<noteq> dquote" "c \<noteq> bslash" using assms(1) byte_dquote byte_bslash by auto
  with assms show ?thesis by simp
qed

lemma unquote_rune:
  assumes "\<not> byte c < 0x80" "rune_len (c # cs) \<noteq> 0"
  shows "unquote_body (c # cs) =
     (case unquote_body (drop (rune_len (c # cs) - 1) cs) of
        None \<Rightarrow> None
      | Some (s, rest) \<Rightarrow> Some (take (rune_len (c # cs)) (c # cs) @ s, rest))"
proof -
  have "c \<noteq> dquote" "c \<noteq> bslash" using assms(1) byte_dquote byte_bslash by auto
  with assms show ?thesis by simp
qed

declare unquote_body.simps(2) [simp del] quote_body.simps(2) [simp del]
  utf8_coerce.simps(2) [simp del]

text \<open>An escaped character below 0x80 reads as the character itself.\<close>

lemma unquote_escape_ascii:
  assumes "byte c < 0x80"
  shows "unquote_body (escape_ascii c @ x) =
     (case unquote_body x of None \<Rightarrow> None | Some (s, rest) \<Rightarrow> Some (c # s, rest))"
proof -
  consider (q) "c = dquote \<or> c = bslash"
    | (b) "c = CHR 0x08" | (f) "c = CHR 0x0C" | (n) "c = CHR 0x0A" | (r) "c = CHR 0x0D"
    | (t) "c = CHR 0x09"
    | (u) "c \<noteq> dquote" "c \<noteq> bslash" "c \<noteq> CHR 0x08" "c \<noteq> CHR 0x0C" "c \<noteq> CHR 0x0A"
          "c \<noteq> CHR 0x0D" "c \<noteq> CHR 0x09"
          "byte c < 0x20 \<or> c = CHR ''<'' \<or> c = CHR ''>'' \<or> c = CHR ''&''"
    | (p) "c \<noteq> dquote" "c \<noteq> bslash" "c \<noteq> CHR 0x08" "c \<noteq> CHR 0x0C" "c \<noteq> CHR 0x0A"
          "c \<noteq> CHR 0x0D" "c \<noteq> CHR 0x09"
          "\<not> (byte c < 0x20 \<or> c = CHR ''<'' \<or> c = CHR ''>'' \<or> c = CHR ''&'')"
    by blast
  then show ?thesis
  proof cases
    case q
    then have e: "escape_ascii c = [bslash, c]" by (simp add: escape_ascii_def)
    have nu: "c \<noteq> CHR ''u''" using q by (auto simp: dquote_def bslash_def)
    have "(if c = dquote \<or> c = bslash \<or> c = CHR ''/'' then Some c
          else if c = CHR ''b'' then Some (CHR 0x08)
          else if c = CHR ''f'' then Some (CHR 0x0C)
          else if c = CHR ''n'' then Some (CHR 0x0A)
          else if c = CHR ''r'' then Some (CHR 0x0D)
          else if c = CHR ''t'' then Some (CHR 0x09)
          else None) = Some c"
      using q by auto
    from unquote_short [OF nu this] show ?thesis unfolding e by simp
  next
    case b
    then have e: "escape_ascii c = [bslash, CHR ''b'']"
      by (simp add: escape_ascii_def dquote_def bslash_def)
    have sh: "unquote_body (bslash # CHR ''b'' # x) =
        (case unquote_body x of None \<Rightarrow> None | Some (s, rest) \<Rightarrow> Some (CHR 0x08 # s, rest))"
      by (rule unquote_short) (simp_all add: dquote_def bslash_def)
    show ?thesis unfolding e append.simps sh unfolding b by (rule refl)
  next
    case f
    then have e: "escape_ascii c = [bslash, CHR ''f'']"
      by (simp add: escape_ascii_def dquote_def bslash_def)
    have sh: "unquote_body (bslash # CHR ''f'' # x) =
        (case unquote_body x of None \<Rightarrow> None | Some (s, rest) \<Rightarrow> Some (CHR 0x0C # s, rest))"
      by (rule unquote_short) (simp_all add: dquote_def bslash_def)
    show ?thesis unfolding e append.simps sh unfolding f by (rule refl)
  next
    case n
    then have e: "escape_ascii c = [bslash, CHR ''n'']"
      by (simp add: escape_ascii_def dquote_def bslash_def)
    have sh: "unquote_body (bslash # CHR ''n'' # x) =
        (case unquote_body x of None \<Rightarrow> None | Some (s, rest) \<Rightarrow> Some (CHR 0x0A # s, rest))"
      by (rule unquote_short) (simp_all add: dquote_def bslash_def)
    show ?thesis unfolding e append.simps sh unfolding n by (rule refl)
  next
    case r
    then have e: "escape_ascii c = [bslash, CHR ''r'']"
      by (simp add: escape_ascii_def dquote_def bslash_def)
    have sh: "unquote_body (bslash # CHR ''r'' # x) =
        (case unquote_body x of None \<Rightarrow> None | Some (s, rest) \<Rightarrow> Some (CHR 0x0D # s, rest))"
      by (rule unquote_short) (simp_all add: dquote_def bslash_def)
    show ?thesis unfolding e append.simps sh unfolding r by (rule refl)
  next
    case t
    then have e: "escape_ascii c = [bslash, CHR ''t'']"
      by (simp add: escape_ascii_def dquote_def bslash_def)
    have sh: "unquote_body (bslash # CHR ''t'' # x) =
        (case unquote_body x of None \<Rightarrow> None | Some (s, rest) \<Rightarrow> Some (CHR 0x09 # s, rest))"
      by (rule unquote_short) (simp_all add: dquote_def bslash_def)
    show ?thesis unfolding e append.simps sh unfolding t by (rule refl)
  next
    case u
    then have e: "escape_ascii c =
        [bslash, CHR ''u'', CHR ''0'', CHR ''0'', hexdigit (byte c div 16), hexdigit (byte c mod 16)]"
      by (simp add: escape_ascii_def)
    have "\<not> (0xD800 \<le> byte c \<and> byte c < 0xDC00)" using assms by simp
    then show ?thesis unfolding e
      using unquote_u [OF hex4_byte, of c x] assms
      by (simp add: EncodeRune_ascii cong: option.case_cong)
  next
    case p
    then have e: "escape_ascii c = [c]" by (simp add: escape_ascii_def)
    show ?thesis unfolding e using p assms by (simp add: unquote_plain)
  qed
qed

text \<open>
  Reading the body of a string that \<open>json.Marshal\<close> wrote gives the string coerced to
  valid UTF-8.
\<close>

lemma unquote_quote_body:
  "unquote_body (quote_body s @ dquote # rest) = Some (utf8_coerce s, rest)"
proof (induction s rule: quote_body.induct)
  case 1
  show ?case by (simp add: unquote_body.simps(2))
next
  case (2 c cs)
  show ?case
  proof (cases "byte c < 0x80")
    case True
    then show ?thesis using 2(1)
      by (simp add: quote_body.simps(2) unquote_escape_ascii utf8_coerce_ascii)
  next
    case high: False
    show ?thesis
    proof (cases "rune_len (c # cs) = 0")
      case True
      have "\<not> (0xD800 \<le> (0xFFFD::nat) \<and> (0xFFFD::nat) < 0xDC00)" by simp
      from unquote_u [OF hex4_fffd this] show ?thesis
        using high True 2(2)
        by (simp add: quote_body.simps(2) utf8_coerce.simps(2) EncodeRune_fffd)
    next
      case valid: False
      show ?thesis
      proof (cases "take 3 (c # cs) = [CHR 0xE2, CHR 0x80, CHR 0xA8]")
        case True
        then obtain r where cs: "c = CHR 0xE2" "cs = CHR 0x80 # CHR 0xA8 # r"
          by (cases cs; cases "tl cs") (auto simp: take_Suc_conv_app_nth split: if_splits)
        have len: "rune_len (c # cs) = 3"
          unfolding rune_len_3 cs by (simp add: byte_def cont_def)
        have "\<not> (0xD800 \<le> (0x2028::nat) \<and> (0x2028::nat) < 0xDC00)" by simp
        from unquote_u [OF hex4_2028 this] show ?thesis
          using high valid True 2(3) len cs
          by (simp add: quote_body.simps(2) utf8_coerce.simps(2) EncodeRune_2028)
      next
        case no28: False
        show ?thesis
        proof (cases "take 3 (c # cs) = [CHR 0xE2, CHR 0x80, CHR 0xA9]")
          case True
          then obtain r where cs: "c = CHR 0xE2" "cs = CHR 0x80 # CHR 0xA9 # r"
            by (cases cs; cases "tl cs") (auto simp: take_Suc_conv_app_nth split: if_splits)
          have len: "rune_len (c # cs) = 3"
            unfolding rune_len_3 cs by (simp add: byte_def cont_def)
          have "\<not> (0xD800 \<le> (0x2029::nat) \<and> (0x2029::nat) < 0xDC00)" by simp
          from unquote_u [OF hex4_2029 this] show ?thesis
            using high valid no28 True 2(4) len cs
            by (simp add: quote_body.simps(2) utf8_coerce.simps(2) EncodeRune_2029)
        next
          case no29: False
          let ?n = "rune_len (c # cs)"
          define y where "y = quote_body (drop (?n - 1) cs) @ dquote # rest"
          define p where "p = take (?n - 1) cs"
          have n: "0 < ?n" "?n \<le> Suc (length cs)"
            using valid rune_len_le [of "c # cs"] by simp_all
          have lp: "length p = ?n - 1"
            using n by (simp add: p_def)
          have tk: "take ?n (c # cs) = c # p"
            using n by (cases ?n) (simp_all add: p_def)
          have rl: "rune_len (c # p @ y) = ?n"
            unfolding p_def using valid by (rule rune_len_take)
          then have nz: "rune_len (c # p @ y) \<noteq> 0" using valid by simp
          have d: "drop (?n - 1) (p @ y) = y" using lp by simp
          have t: "take ?n (c # p @ y) = c # p" using lp n by (cases ?n) simp_all
          have ih: "unquote_body y = Some (utf8_coerce (drop (?n - 1) cs), rest)"
            unfolding y_def by (rule 2(5) [OF high valid no28 no29])
          have "unquote_body (c # p @ y) =
              Some (c # p @ utf8_coerce (drop (?n - 1) cs), rest)"
            unfolding unquote_rune [OF high nz] rl d t ih by simp
          moreover have "quote_body (c # cs) = take ?n (c # cs) @ quote_body (drop (?n - 1) cs)"
            by (subst quote_body.simps(2)) (simp only: high valid no28 no29 if_False)
          then have "quote_body (c # cs) @ dquote # rest = c # p @ y"
            unfolding tk by (simp add: y_def)
          moreover have "utf8_coerce (c # cs) = c # p @ utf8_coerce (drop (?n - 1) cs)"
            using valid tk by (simp add: utf8_coerce.simps(2))
          ultimately show ?thesis by simp
        qed
      qed
    qed
  qed
qed

lemma valid_utf8_coerce: "valid_utf8 s \<Longrightarrow> utf8_coerce s = s"
proof (induction s rule: utf8_coerce.induct)
  case 1
  show ?case by simp
next
  case (2 c cs)
  let ?n = "rune_len (c # cs)"
  from "2.prems" have v: "?n \<noteq> 0" "valid_utf8 (drop (?n - 1) cs)" by simp_all
  then have "utf8_coerce (drop (?n - 1) cs) = drop (?n - 1) cs" using 2(2) by simp
  moreover have "take ?n (c # cs) = c # take (?n - 1) cs" using v(1) by (cases ?n) simp_all
  ultimately show ?case using v(1) by (simp add: utf8_coerce.simps(2))
qed

section \<open>Integers: reading what was written\<close>

lemma byte_eq_iff: "byte c = byte d \<longleftrightarrow> c = d"
  by (simp add: byte_def)

lemma byte_char_of: "n < 256 \<Longrightarrow> byte (char_of n) = n"
  by (simp add: byte_def)

lemma byte_digit: "k < 10 \<Longrightarrow> byte (digit k) = 0x30 + k"
  by (simp add: digit_def byte_char_of)

lemma is_digit_digit: "k < 10 \<Longrightarrow> is_digit (digit k)"
  by (simp add: is_digit_def byte_digit)

lemma show_nat_digits: "list_all is_digit (show_nat n)"
proof (induction n rule: show_nat.induct)
  case (1 n)
  show ?case
  proof (cases "n < 10")
    case True
    then show ?thesis by (simp add: show_nat.simps [of n] is_digit_digit)
  next
    case False
    with 1 show ?thesis by (simp add: show_nat.simps [of n] is_digit_digit)
  qed
qed

lemma show_nat_not_Nil: "show_nat n \<noteq> []"
  by (simp add: show_nat.simps [of n])

lemma digits_value_snoc: "digits_value (ds @ [c]) = digits_value ds * 10 + (byte c - 0x30)"
  by (simp add: digits_value_def)

lemma digits_value_show_nat: "digits_value (show_nat n) = n"
proof (induction n rule: show_nat.induct)
  case (1 n)
  show ?case
  proof (cases "n < 10")
    case True
    then show ?thesis by (simp add: show_nat.simps [of n] digits_value_def byte_digit)
  next
    case False
    with 1 show ?thesis
      by (simp add: show_nat.simps [of n] digits_value_snoc byte_digit)
  qed
qed

lemma hd_show_nat: "hd (show_nat n) = CHR ''0'' \<longleftrightarrow> n = 0"
proof (induction n rule: show_nat.induct)
  case (1 n)
  show ?case
  proof (cases "n < 10")
    case True
    have "digit n = CHR ''0'' \<longleftrightarrow> byte (digit n) = byte (CHR ''0'')"
      by (rule byte_eq_iff [symmetric])
    also have "byte (CHR ''0'') = 0x30" by (simp add: byte_def)
    finally have "digit n = CHR ''0'' \<longleftrightarrow> n = 0" using True by (simp add: byte_digit)
    then show ?thesis using True by (simp add: show_nat.simps [of n])
  next
    case False
    then have "hd (show_nat n) = hd (show_nat (n div 10))"
      by (simp add: show_nat.simps [of n] show_nat_not_Nil)
    with 1 False show ?thesis by simp
  qed
qed

lemma show_nat_0: "show_nat 0 = ''0''"
  by (simp add: show_nat.simps [of 0] digit_def char_of_def bit_Suc_0_iff)

lemma hd_show_nat_digit: "is_digit (hd (show_nat n))"
  using show_nat_digits [of n] show_nat_not_Nil [of n] by (cases "show_nat n") simp_all

lemma not_digit_minus: "\<not> is_digit (CHR ''-'')"
  by (simp add: is_digit_def byte_def)

lemma takeWhile_digits:
  assumes "list_all is_digit ds" "rest = [] \<or> \<not> is_digit (hd rest)"
  shows "takeWhile is_digit (ds @ rest) = ds" "dropWhile is_digit (ds @ rest) = rest"
proof -
  have ds: "\<forall>x \<in> set ds. is_digit x" using assms(1) by (simp add: list_all_iff)
  have r: "takeWhile is_digit rest = []" "dropWhile is_digit rest = rest"
    using assms(2) by (cases rest; simp)+
  show "takeWhile is_digit (ds @ rest) = ds" using ds r by (simp add: takeWhile_append2)
  show "dropWhile is_digit (ds @ rest) = rest" using ds r by (simp add: dropWhile_append2)
qed

lemma ends_value_not_digit:
  assumes "ends_value rest"
  shows "rest = [] \<or>
    (\<not> is_digit (hd rest) \<and> hd rest \<noteq> CHR ''.'' \<and> hd rest \<noteq> CHR ''e'' \<and> hd rest \<noteq> CHR ''E'')"
  using assms by (auto simp: ends_value_def is_ws_def is_digit_def byte_def)

lemma scan_show_nat:
  assumes "ends_value rest"
  shows "scan_int (show_nat n @ rest) = Some (show_nat n, rest)"
proof (cases "n = 0")
  case True
  then show ?thesis by (simp add: show_nat_0 scan_int_def)
next
  case False
  obtain c r where cr: "show_nat n = c # r" using show_nat_not_Nil [of n] by (cases "show_nat n") auto
  have nd: "rest = [] \<or> \<not> is_digit (hd rest)"
    using ends_value_not_digit [OF assms] by blast
  have "c \<noteq> CHR ''0''" using cr hd_show_nat [of n] False by simp
  moreover have "scan_digits (show_nat n @ rest) = Some (show_nat n, rest)"
    by (simp add: scan_digits_def takeWhile_digits [OF show_nat_digits nd] show_nat_not_Nil)
  ultimately show ?thesis using cr by (simp add: scan_int_def)
qed

lemma scan_frac_none:
  assumes "ends_value rest"
  shows "scan_frac rest = Some ([], rest)" "scan_exp rest = Some ([], rest)"
  using ends_value_not_digit [OF assms]
  by (cases rest; simp add: scan_frac_def scan_exp_def)+

lemma scan_number_FormatInt:
  assumes "ends_value rest"
  shows "scan_number (FormatInt i @ rest) = Some (FormatInt i, rest)"
proof (cases "i < 0")
  case True
  then have "scan_number (CHR ''-'' # show_nat (nat (- i)) @ rest) =
      Some (CHR ''-'' # show_nat (nat (- i)), rest)"
    by (simp add: scan_number_def scan_show_nat [OF assms] scan_frac_none [OF assms])
  with True show ?thesis by (simp add: FormatInt_def)
next
  case False
  have "hd (show_nat (nat i) @ rest) \<noteq> CHR ''-''"
    using hd_show_nat_digit [of "nat i"] show_nat_not_Nil [of "nat i"] not_digit_minus
    by (cases "show_nat (nat i)") auto
  then have "scan_number (show_nat (nat i) @ rest) = Some (show_nat (nat i), rest)"
    by (simp add: scan_number_def scan_show_nat [OF assms] scan_frac_none [OF assms])
  with False show ?thesis by (simp add: FormatInt_def)
qed

lemma ParseInt_FormatInt:
  assumes "- (2 ^ 63) \<le> i" "i < 2 ^ 63"
  shows "ParseInt (FormatInt i) = Some i"
proof (cases "i < 0")
  case True
  then show ?thesis using assms
    by (simp add: FormatInt_def ParseInt_def show_nat_digits show_nat_not_Nil
        digits_value_show_nat Let_def)
next
  case False
  have "hd (show_nat (nat i)) \<noteq> CHR ''-''" "hd (show_nat (nat i)) \<noteq> CHR ''+''"
    using hd_show_nat_digit [of "nat i"] by (auto simp: is_digit_def byte_def)
  with False show ?thesis using assms
    by (simp add: FormatInt_def ParseInt_def show_nat_digits show_nat_not_Nil
        digits_value_show_nat Let_def)
qed

lemma ParseInt_sint: "ParseInt (FormatInt (sint (w :: int64))) = Some (sint w)"
proof -
  have "- (2 ^ 63) \<le> sint w" "sint w < 2 ^ 63"
    using sint_ge [of w] sint_lt [of w] by simp_all
  then show ?thesis by (rule ParseInt_FormatInt)
qed

lemma FormatInt_not_Nil: "FormatInt i \<noteq> []"
  by (simp add: FormatInt_def show_nat_not_Nil)

lemma hd_FormatInt: "hd (FormatInt i) = CHR ''-'' \<or> is_digit (hd (FormatInt i))"
  by (simp add: FormatInt_def hd_show_nat_digit)

section \<open>The parser: one step\<close>

lemma skip_ws_ws: "list_all is_ws w \<Longrightarrow> skip_ws (w @ s) = skip_ws s"
  by (induction w) (simp_all add: skip_ws_def)

lemma skip_ws_id: "s = [] \<or> \<not> is_ws (hd s) \<Longrightarrow> skip_ws s = s"
  by (cases s) (auto simp: skip_ws_def)

lemma newline_ws: "list_all is_ws (newline d)"
  by (simp add: newline_def is_ws_def list_all_iff)

lemma skip_ws_newline: "skip_ws (newline d @ s) = skip_ws s"
  by (rule skip_ws_ws [OF newline_ws])

lemma parse_value_array:
  assumes "depth < maxNestingDepth" "skip_ws r = x" "x \<noteq> []" "hd x \<noteq> CHR '']''"
  shows "parse_value (Suc f) depth (CHR ''['' # r) =
     (case parse_elems f (Suc depth) x of
        None \<Rightarrow> None
      | Some (vs, rest) \<Rightarrow> Some (JArray vs, rest))"
  using assms by (cases x) simp_all

lemma parse_value_object:
  assumes "depth < maxNestingDepth" "skip_ws r = x" "x \<noteq> []" "hd x \<noteq> CHR ''}''"
  shows "parse_value (Suc f) depth (CHR ''{'' # r) =
     (case parse_members f (Suc depth) x of
        None \<Rightarrow> None
      | Some (kvs, rest) \<Rightarrow> Some (JObject kvs, rest))"
  using assms by (cases x) simp_all

lemma parse_value_empty_array: "depth < maxNestingDepth \<Longrightarrow>
    parse_value (Suc f) depth (''[]'' @ rest) = Some (JArray [], rest)"
  by (simp add: skip_ws_def is_ws_def)

lemma parse_value_empty_object: "depth < maxNestingDepth \<Longrightarrow>
    parse_value (Suc f) depth (''{}'' @ rest) = Some (JObject [], rest)"
  by (simp add: skip_ws_def is_ws_def)

lemma parse_value_string:
  "parse_value (Suc f) depth (dquote # r) =
     (case unquote_body r of None \<Rightarrow> None | Some (str, rest) \<Rightarrow> Some (JString str, rest))"
  by (simp add: dquote_def)

lemma parse_value_number:
  assumes "c = CHR ''-'' \<or> is_digit c"
  shows "parse_value (Suc f) depth (c # r) =
     (case scan_number (c # r) of None \<Rightarrow> None | Some (lit, rest) \<Rightarrow> Some (JNumber lit, rest))"
proof -
  have "c \<noteq> CHR ''{''" "c \<noteq> CHR ''[''" "c \<noteq> dquote"
    using assms by (auto simp: is_digit_def byte_def dquote_def)
  with assms show ?thesis by simp
qed

lemma parse_value_literals:
  "parse_value (Suc f) depth (''null'' @ rest) = Some (JNull, rest)"
  "parse_value (Suc f) depth (''true'' @ rest) = Some (JBool True, rest)"
  "parse_value (Suc f) depth (''false'' @ rest) = Some (JBool False, rest)"
  by (simp_all add: dquote_def is_digit_def byte_def)

lemma parse_elems_last:
  assumes "parse_value f depth s = Some (v, r)" "skip_ws r = CHR '']'' # r1"
  shows "parse_elems (Suc f) depth s = Some ([v], r1)"
  using assms by simp

lemma parse_elems_more:
  assumes "parse_value f depth s = Some (v, r)" "skip_ws r = CHR '','' # r1"
    and "parse_elems f depth (skip_ws r1) = Some (vs, rest)"
  shows "parse_elems (Suc f) depth s = Some (v # vs, rest)"
  using assms by simp

lemma parse_members_last:
  assumes "unquote_body s = Some (key, r1)" "skip_ws r1 = CHR '':'' # r2"
    and "parse_value f depth (skip_ws r2) = Some (v, r3)" "skip_ws r3 = CHR ''}'' # r4"
  shows "parse_members (Suc f) depth (dquote # s) = Some ([(key, v)], r4)"
  using assms by simp

lemma parse_members_more:
  assumes "unquote_body s = Some (key, r1)" "skip_ws r1 = CHR '':'' # r2"
    and "parse_value f depth (skip_ws r2) = Some (v, r3)" "skip_ws r3 = CHR '','' # r4"
    and "parse_members f depth (skip_ws r4) = Some (kvs, rest)"
  shows "parse_members (Suc f) depth (dquote # s) = Some ((key, v) # kvs, rest)"
  using assms by simp

declare parse_value.simps [simp del] parse_elems.simps [simp del] parse_members.simps [simp del]

section \<open>The text of a value\<close>

lemma quote_Cons: "quote s = dquote # quote_body s @ [dquote]"
  by (simp add: quote_def)

text \<open>The text of a value starts with the first character of a value, which is not white space.\<close>

definition starts_value :: "string \<Rightarrow> bool" where
  "starts_value s =
     (s \<noteq> [] \<and> \<not> is_ws (hd s) \<and> hd s \<noteq> CHR '']'' \<and> hd s \<noteq> CHR ''}'' \<and> hd s \<noteq> CHR '','')"

lemma starts_value_append: "starts_value s \<Longrightarrow> starts_value (s @ x)"
  by (cases s) (simp_all add: starts_value_def)

lemma starts_value_render: "wf_json v \<Longrightarrow> starts_value (render d v)"
proof (cases v)
  case (JNumber lit)
  assume "wf_json v"
  with JNumber obtain i where "lit = FormatInt i" by auto
  with JNumber show ?thesis
    using hd_FormatInt [of i] FormatInt_not_Nil [of i]
    by (auto simp: starts_value_def is_ws_def is_digit_def byte_def)
qed (simp_all add: starts_value_def is_ws_def quote_def dquote_def)

lemma starts_value_render_elems:
  "vs \<noteq> [] \<Longrightarrow> list_all wf_json vs \<Longrightarrow> starts_value (render_elems d vs)"
  by (cases vs) (auto simp: starts_value_render starts_value_append)

lemma starts_value_quote: "starts_value (quote k @ x)"
  by (simp add: starts_value_def quote_def dquote_def is_ws_def)

lemma starts_value_skip_ws: "starts_value s \<Longrightarrow> skip_ws s = s"
  by (simp add: skip_ws_id starts_value_def)

lemma jdepth_member: "v \<in> set vs \<Longrightarrow> f v \<le> foldr max (map f vs) (0::nat)"
  by (induction vs) auto

section \<open>Reading back the text of a value\<close>

lemma ends_value_ws:
  assumes "list_all is_ws w" "c = CHR '','' \<or> c = CHR '']'' \<or> c = CHR ''}''"
  shows "ends_value (w @ c # rest)"
  using assms by (cases w) (auto simp: ends_value_def)

lemma skip_ws_closing:
  assumes "list_all is_ws w" "c = CHR '','' \<or> c = CHR '']'' \<or> c = CHR ''}'' \<or> c = CHR '':''"
  shows "skip_ws (w @ c # rest) = c # rest"
proof -
  have "\<not> is_ws c" using assms(2) by (auto simp: is_ws_def)
  then show ?thesis using assms(1) by (simp add: skip_ws_ws skip_ws_id)
qed

lemma length_newline: "length (newline d) = Suc (2 * d)"
  by (simp add: newline_def)

lemma parse_render:
  "wf_json v \<Longrightarrow> depth + jdepth v \<le> maxNestingDepth \<Longrightarrow> length (render d v) < fuel \<Longrightarrow>
     ends_value rest \<Longrightarrow>
     parse_value fuel depth (render d v @ rest) = Some (coerce_json v, rest)"
  and "vs \<noteq> [] \<Longrightarrow> list_all wf_json vs \<Longrightarrow>
     \<forall>v \<in> set vs. depth + jdepth v \<le> maxNestingDepth \<Longrightarrow>
     length (render_elems d vs) + 1 < fuel \<Longrightarrow> list_all is_ws w \<Longrightarrow>
     parse_elems fuel depth (render_elems d vs @ w @ CHR '']'' # rest) =
       Some (map coerce_json vs, rest)"
  and "kvs \<noteq> [] \<Longrightarrow> list_all (\<lambda>kv. wf_json (snd kv)) kvs \<Longrightarrow>
     \<forall>kv \<in> set kvs. depth + jdepth (snd kv) \<le> maxNestingDepth \<Longrightarrow>
     length (render_members d kvs) + 1 < fuel \<Longrightarrow> list_all is_ws w \<Longrightarrow>
     parse_members fuel depth (render_members d kvs @ w @ CHR ''}'' # rest) =
       Some (map (\<lambda>kv. (utf8_coerce (fst kv), coerce_json (snd kv))) kvs, rest)"
proof (induction d v and d vs and d kvs
    arbitrary: fuel depth rest and fuel depth rest w and fuel depth rest w
    rule: render_render_elems_render_members.induct)
  case (1 d)
  then obtain f where "fuel = Suc f" by (cases fuel) auto
  then show ?case using parse_value_literals(1) [of f depth rest] by simp
next
  case (2 d b)
  then obtain f where "fuel = Suc f" by (cases fuel) auto
  then show ?case
    using parse_value_literals(2) [of f depth rest] parse_value_literals(3) [of f depth rest]
    by (cases b) simp_all
next
  case (3 d lit)
  then obtain f where fuel: "fuel = Suc f" by (cases fuel) auto
  from "3.prems"(1) obtain i where lit: "lit = FormatInt i" by auto
  obtain c r where cr: "FormatInt i = c # r"
    using FormatInt_not_Nil [of i] by (cases "FormatInt i") auto
  have c: "c = CHR ''-'' \<or> is_digit c" using hd_FormatInt [of i] cr by simp
  have "parse_value (Suc f) depth (c # r @ rest) =
      (case scan_number (c # r @ rest) of
         None \<Rightarrow> None
       | Some (lit, rest) \<Rightarrow> Some (JNumber lit, rest))"
    by (rule parse_value_number [OF c])
  moreover have "scan_number (c # r @ rest) = Some (FormatInt i, rest)"
    using scan_number_FormatInt [OF "3.prems"(4), of i] cr by simp
  ultimately show ?case using fuel lit cr by simp
next
  case (4 d s)
  then obtain f where fuel: "fuel = Suc f" by (cases fuel) auto
  have "render d (JString s) @ rest = dquote # quote_body s @ dquote # rest"
    by (simp add: quote_def)
  then show ?case using fuel by (simp add: parse_value_string unquote_quote_body)
next
  case (5 d vs)
  then obtain f where fuel: "fuel = Suc f" by (cases fuel) auto
  have dp: "depth < maxNestingDepth" using "5.prems"(2) by simp
  show ?case
  proof (cases "vs = []")
    case True
    then show ?thesis using fuel parse_value_empty_array [OF dp, of f rest] by simp
  next
    case False
    let ?x = "render_elems (Suc d) vs @ newline d @ CHR '']'' # rest"
    have wf: "list_all wf_json vs" using "5.prems"(1) by simp
    have sv: "starts_value ?x"
      by (rule starts_value_append [OF starts_value_render_elems [OF False wf]])
    have sk: "skip_ws (newline (Suc d) @ ?x) = ?x"
      by (simp only: skip_ws_newline starts_value_skip_ws [OF sv])
    have deep: "\<forall>v \<in> set vs. Suc depth + jdepth v \<le> maxNestingDepth"
    proof
      fix v assume "v \<in> set vs"
      then have "jdepth v \<le> foldr max (map jdepth vs) 0" by (rule jdepth_member)
      then show "Suc depth + jdepth v \<le> maxNestingDepth" using "5.prems"(2) by simp
    qed
    have len: "length (render_elems (Suc d) vs) + 1 < f"
      using "5.prems"(3) False fuel by (simp add: length_newline)
    have pe: "parse_elems f (Suc depth) ?x = Some (map coerce_json vs, rest)"
      by (rule "5.IH" [OF False False wf deep len newline_ws])
    have x: "?x \<noteq> []" "hd ?x \<noteq> CHR '']''" using sv by (simp_all add: starts_value_def)
    have "render d (JArray vs) @ rest = CHR ''['' # newline (Suc d) @ ?x" using False by simp
    then show ?thesis using parse_value_array [OF dp sk x, of f] pe fuel by simp
  qed
next
  case (6 d kvs)
  then obtain f where fuel: "fuel = Suc f" by (cases fuel) auto
  have dp: "depth < maxNestingDepth" using "6.prems"(2) by simp
  show ?case
  proof (cases "kvs = []")
    case True
    then show ?thesis using fuel parse_value_empty_object [OF dp, of f rest] by simp
  next
    case False
    let ?x = "render_members (Suc d) kvs @ newline d @ CHR ''}'' # rest"
    have wf: "list_all (\<lambda>kv. wf_json (snd kv)) kvs" using "6.prems"(1) by simp
    have "starts_value (render_members (Suc d) kvs)"
      using False starts_value_quote by (cases kvs) auto
    then have sv: "starts_value ?x" by (rule starts_value_append)
    have sk: "skip_ws (newline (Suc d) @ ?x) = ?x"
      by (simp only: skip_ws_newline starts_value_skip_ws [OF sv])
    have deep: "\<forall>kv \<in> set kvs. Suc depth + jdepth (snd kv) \<le> maxNestingDepth"
    proof
      fix kv assume "kv \<in> set kvs"
      then have "jdepth (snd kv) \<le> foldr max (map (\<lambda>kv. jdepth (snd kv)) kvs) 0"
        by (rule jdepth_member)
      then show "Suc depth + jdepth (snd kv) \<le> maxNestingDepth" using "6.prems"(2) by simp
    qed
    have len: "length (render_members (Suc d) kvs) + 1 < f"
      using "6.prems"(3) False fuel by (simp add: length_newline)
    have pe: "parse_members f (Suc depth) ?x =
        Some (map (\<lambda>kv. (utf8_coerce (fst kv), coerce_json (snd kv))) kvs, rest)"
      by (rule "6.IH" [OF False False wf deep len newline_ws])
    have x: "?x \<noteq> []" "hd ?x \<noteq> CHR ''}''" using sv by (simp_all add: starts_value_def)
    have "render d (JObject kvs) @ rest = CHR ''{'' # newline (Suc d) @ ?x" using False by simp
    then show ?thesis using parse_value_object [OF dp sk x, of f] pe fuel by simp
  qed
next
  case (7 d)
  then show ?case by simp
next
  case (8 d v vs)
  then obtain f where fuel: "fuel = Suc f" by (cases fuel) auto
  have wf: "wf_json v" and dv: "depth + jdepth v \<le> maxNestingDepth"
    using "8.prems"(2,3) by simp_all
  show ?case
  proof (cases "vs = []")
    case True
    have len: "length (render d v) < f" using "8.prems"(4) True fuel by simp
    have ev: "ends_value (w @ CHR '']'' # rest)"
      by (rule ends_value_ws [OF "8.prems"(5)]) simp
    have pv: "parse_value f depth (render d v @ w @ CHR '']'' # rest) =
        Some (coerce_json v, w @ CHR '']'' # rest)"
      by (rule "8.IH"(1) [OF True wf dv len ev])
    have sk: "skip_ws (w @ CHR '']'' # rest) = CHR '']'' # rest"
      by (rule skip_ws_closing [OF "8.prems"(5)]) simp
    show ?thesis using parse_elems_last [OF pv sk] True fuel by simp
  next
    case False
    let ?y = "render_elems d vs @ w @ CHR '']'' # rest"
    let ?r = "CHR '','' # newline d @ ?y"
    have len: "length (render d v) < f" "length (render_elems d vs) + 1 < f"
      using "8.prems"(4) False fuel by simp_all
    have ev: "ends_value ?r" by (simp add: ends_value_def)
    have pv: "parse_value f depth (render d v @ ?r) = Some (coerce_json v, ?r)"
      by (rule "8.IH"(2) [OF False wf dv len(1) ev])
    have sk: "skip_ws ?r = CHR '','' # newline d @ ?y" by (simp add: skip_ws_id is_ws_def)
    have wfs: "list_all wf_json vs" and ds: "\<forall>v \<in> set vs. depth + jdepth v \<le> maxNestingDepth"
      using "8.prems"(2,3) by simp_all
    have "starts_value ?y"
      by (rule starts_value_append [OF starts_value_render_elems [OF False wfs]])
    then have sy: "skip_ws (newline d @ ?y) = ?y"
      by (simp only: skip_ws_newline starts_value_skip_ws)
    have pe: "parse_elems f depth (skip_ws (newline d @ ?y)) = Some (map coerce_json vs, rest)"
      unfolding sy by (rule "8.IH"(3) [OF False False wfs ds len(2) "8.prems"(5)])
    show ?thesis using parse_elems_more [OF pv sk pe] False fuel by simp
  qed
next
  case (9 d)
  then show ?case by simp
next
  case (10 d kv kvs)
  then obtain f where fuel: "fuel = Suc f" by (cases fuel) auto
  have wf: "wf_json (snd kv)" and dv: "depth + jdepth (snd kv) \<le> maxNestingDepth"
    using "10.prems"(2,3) by simp_all
  have sc: "skip_ws (CHR '':'' # CHR '' '' # x) = CHR '':'' # CHR '' '' # x" for x
    by (simp add: skip_ws_id is_ws_def)
  show ?case
  proof (cases "kvs = []")
    case True
    let ?r = "w @ CHR ''}'' # rest"
    have len: "length (render d (snd kv)) < f" using "10.prems"(4) True fuel by simp
    have ev: "ends_value ?r" by (rule ends_value_ws [OF "10.prems"(5)]) simp
    have uq: "unquote_body (quote_body (fst kv) @ dquote # CHR '':'' # CHR '' '' # render d (snd kv) @ ?r) =
        Some (utf8_coerce (fst kv), CHR '':'' # CHR '' '' # render d (snd kv) @ ?r)"
      by (rule unquote_quote_body)
    have "skip_ws (CHR '' '' # render d (snd kv) @ ?r) = render d (snd kv) @ ?r"
      using starts_value_skip_ws [OF starts_value_append [OF starts_value_render [OF wf]]]
        skip_ws_ws [of "'' ''"] by (simp add: is_ws_def)
    then have pv: "parse_value f depth (skip_ws (CHR '' '' # render d (snd kv) @ ?r)) =
        Some (coerce_json (snd kv), ?r)"
      using "10.IH"(1) [OF True wf dv len ev] by simp
    have sk: "skip_ws ?r = CHR ''}'' # rest"
      by (rule skip_ws_closing [OF "10.prems"(5)]) simp
    show ?thesis using parse_members_last [OF uq sc pv sk] True fuel by (simp add: quote_def)
  next
    case False
    let ?y = "render_members d kvs @ w @ CHR ''}'' # rest"
    let ?r = "CHR '','' # newline d @ ?y"
    have len: "length (render d (snd kv)) < f" "length (render_members d kvs) + 1 < f"
      using "10.prems"(4) False fuel by simp_all
    have ev: "ends_value ?r" by (simp add: ends_value_def)
    have uq: "unquote_body (quote_body (fst kv) @ dquote # CHR '':'' # CHR '' '' # render d (snd kv) @ ?r) =
        Some (utf8_coerce (fst kv), CHR '':'' # CHR '' '' # render d (snd kv) @ ?r)"
      by (rule unquote_quote_body)
    have "skip_ws (CHR '' '' # render d (snd kv) @ ?r) = render d (snd kv) @ ?r"
      using starts_value_skip_ws [OF starts_value_append [OF starts_value_render [OF wf]]]
        skip_ws_ws [of "'' ''"] by (simp add: is_ws_def)
    then have pv: "parse_value f depth (skip_ws (CHR '' '' # render d (snd kv) @ ?r)) =
        Some (coerce_json (snd kv), ?r)"
      using "10.IH"(2) [OF False wf dv len(1) ev] by simp
    have sk: "skip_ws ?r = CHR '','' # newline d @ ?y" by (simp add: skip_ws_id is_ws_def)
    have wfs: "list_all (\<lambda>kv. wf_json (snd kv)) kvs"
      and ds: "\<forall>kv \<in> set kvs. depth + jdepth (snd kv) \<le> maxNestingDepth"
      using "10.prems"(2,3) by simp_all
    have "starts_value (render_members d kvs)"
      using False starts_value_quote by (cases kvs) auto
    then have "starts_value ?y" by (rule starts_value_append)
    then have sy: "skip_ws (newline d @ ?y) = ?y"
      by (simp only: skip_ws_newline starts_value_skip_ws)
    have pe: "parse_members f depth (skip_ws (newline d @ ?y)) =
        Some (map (\<lambda>kv. (utf8_coerce (fst kv), coerce_json (snd kv))) kvs, rest)"
      unfolding sy by (rule "10.IH"(3) [OF False False wfs ds len(2) "10.prems"(5)])
    show ?thesis using parse_members_more [OF uq sc pv sk pe] False fuel by (simp add: quote_def)
  qed
qed

lemma parse_json_render:
  assumes "wf_json v" "jdepth v \<le> maxNestingDepth"
  shows "parse_json (render 0 v) = Some (coerce_json v)"
proof -
  have sk: "skip_ws (render 0 v) = render 0 v"
    by (rule starts_value_skip_ws [OF starts_value_render [OF assms(1)]])
  have "parse_value (Suc (length (render 0 v))) 0 (render 0 v @ []) = Some (coerce_json v, [])"
    by (rule parse_render(1)) (use assms in \<open>simp_all add: ends_value_def\<close>)
  then have "parse_value (Suc (length (render 0 v))) 0 (skip_ws (render 0 v)) =
      Some (coerce_json v, [])"
    by (simp add: sk)
  moreover have "skip_ws [] = []" by (simp add: skip_ws_def)
  ultimately show ?thesis by (simp add: parse_json_def)
qed

section \<open>Decoding the value of a manifest\<close>

lemma utf8_coerce_all_ascii: "list_all (\<lambda>c. byte c < 0x80) s \<Longrightarrow> utf8_coerce s = s"
  by (induction s) (simp_all add: utf8_coerce_ascii)

lemma utf8_coerce_keys:
  "utf8_coerce ''path'' = ''path''" "utf8_coerce ''url'' = ''url''"
  "utf8_coerce ''size'' = ''size''" "utf8_coerce ''sha256'' = ''sha256''"
  "utf8_coerce ''compression'' = ''compression''"
  "utf8_coerce ''artifact_id'' = ''artifact_id''" "utf8_coerce ''version'' = ''version''"
  "utf8_coerce ''mount_path'' = ''mount_path''" "utf8_coerce ''prefetch'' = ''prefetch''"
  "utf8_coerce ''files'' = ''files''"
  by (rule utf8_coerce_all_ascii, simp add: byte_def)+

lemma field_of_member: "key \<in> set names \<Longrightarrow> field_of names key = Some key"
  by (simp add: field_of_def)

lemma coerce_File_json:
  "coerce_json (File_json f) =
     JObject
       [(''path'', JString (utf8_coerce (Path f))),
        (''url'', JString (utf8_coerce (URL f))),
        (''size'', JNumber (FormatInt (sint (Size f)))),
        (''sha256'', JString (utf8_coerce (SHA256 f))),
        (''compression'', JString (utf8_coerce (Compression f)))]"
  by (simp add: File_json_def utf8_coerce_keys)

lemma decode_File_json: "decode_File (coerce_json (File_json f)) (g, e) = (coerce_File f, e)"
  by (simp add: coerce_File_json decode_File_def field_of_member decode_string_def
      decode_int64_def ParseInt_sint coerce_File_def)

lemma decode_elems_strings:
  "decode_elems decode_string [] (map (\<lambda>s. JString (utf8_coerce s)) ys) e =
     (map utf8_coerce ys, e)"
  by (induction ys) (simp_all add: decode_string_def)

lemma decode_elems_Files:
  "decode_elems decode_File zero_File (map (\<lambda>f. coerce_json (File_json f)) ys) e =
     (map coerce_File ys, e)"
  by (induction ys) (simp_all add: decode_File_json)

lemma decode_slice_strings:
  "decode_slice decode_string [] (coerce_json (strings_json xs)) (None, e) =
     Some (map_option (map utf8_coerce) xs, e)"
  by (cases xs) (simp_all add: strings_json_def decode_slice_def comp_def decode_elems_strings)

lemma decode_slice_Files:
  "decode_slice decode_File zero_File (coerce_json (Files_json xs)) (None, e) =
     Some (map_option (map coerce_File) xs, e)"
  by (cases xs) (simp_all add: Files_json_def decode_slice_def comp_def decode_elems_Files)

lemma coerce_Manifest_json:
  "coerce_json (Manifest_json m) =
     JObject
       [(''artifact_id'', JString (utf8_coerce (ArtifactID m))),
        (''version'', JString (utf8_coerce (Version m))),
        (''mount_path'', JString (utf8_coerce (MountPath m))),
        (''prefetch'', coerce_json (strings_json (Prefetch m))),
        (''files'', coerce_json (Files_json (Files m)))]"
  by (simp add: Manifest_json_def utf8_coerce_keys)

lemma decode_Manifest_json:
  "decode_Manifest_members
     [(''artifact_id'', JString (utf8_coerce (ArtifactID m))),
      (''version'', JString (utf8_coerce (Version m))),
      (''mount_path'', JString (utf8_coerce (MountPath m))),
      (''prefetch'', coerce_json (strings_json (Prefetch m))),
      (''files'', coerce_json (Files_json (Files m)))]
     (zero_Manifest, None) = Some (coerce_Manifest m, None)"
  by (simp add: field_of_member decode_string_def decode_slice_strings decode_slice_Files
      zero_Manifest_def coerce_Manifest_def)

section \<open>The value of a manifest is well formed and shallow\<close>

lemma foldr_max_le: "\<forall>v \<in> set vs. f v \<le> n \<Longrightarrow> foldr max (map f vs) (0::nat) \<le> n"
  by (induction vs) auto

lemma wf_File_json: "wf_json (File_json f)"
  by (auto simp: File_json_def)

lemma jdepth_File_json: "jdepth (File_json f) = 1"
  by (simp add: File_json_def)

lemma wf_strings_json: "wf_json (strings_json xs)"
  by (cases xs) (simp_all add: strings_json_def list_all_iff)

lemma wf_Files_json: "wf_json (Files_json xs)"
  by (cases xs) (simp_all add: Files_json_def list_all_iff wf_File_json)

lemma jdepth_strings_json: "jdepth (strings_json xs) \<le> 2"
proof (cases xs)
  case None
  then show ?thesis by (simp add: strings_json_def)
next
  case (Some ys)
  have "foldr max (map jdepth (map JString ys)) 0 \<le> 1"
    by (rule foldr_max_le) auto
  with Some show ?thesis by (simp add: strings_json_def)
qed

lemma jdepth_Files_json: "jdepth (Files_json xs) \<le> 2"
proof (cases xs)
  case None
  then show ?thesis by (simp add: Files_json_def)
next
  case (Some ys)
  have "foldr max (map jdepth (map File_json ys)) 0 \<le> 1"
    by (rule foldr_max_le) (auto simp: jdepth_File_json)
  with Some show ?thesis by (simp add: Files_json_def)
qed

lemma wf_Manifest_json: "wf_json (Manifest_json m)"
  by (simp add: Manifest_json_def wf_strings_json wf_Files_json)

lemma jdepth_Manifest_json: "jdepth (Manifest_json m) \<le> maxNestingDepth"
proof -
  have "jdepth (Manifest_json m) \<le> 3"
    using jdepth_strings_json [of "Prefetch m"] jdepth_Files_json [of "Files m"]
    by (simp add: Manifest_json_def)
  then show ?thesis by (simp add: maxNestingDepth_def)
qed

section \<open>Marshal, then Unmarshal\<close>

lemma Unmarshal_Marshal:
  "Unmarshal (fst (Marshal (Some m))) zero_Manifest = Some (coerce_Manifest m, None)"
proof -
  have "parse_json (render 0 (Manifest_json m)) = Some (coerce_json (Manifest_json m))"
    by (rule parse_json_render [OF wf_Manifest_json jdepth_Manifest_json])
  then have "parse_json (fst (Marshal (Some m))) = Some (coerce_json (Manifest_json m))"
    by (simp add: Marshal_def)
  then show ?thesis
    unfolding Unmarshal_def coerce_Manifest_json
    by (simp only: option.case json.case decode_Manifest_json)
qed

lemma coerce_valid_File: "valid_File f \<Longrightarrow> coerce_File f = f"
  by (simp add: valid_File_def coerce_File_def valid_utf8_coerce)

lemma coerce_valid_Manifest: "valid_Manifest m \<Longrightarrow> coerce_Manifest m = m"
proof -
  assume v: "valid_Manifest m"
  have a: "map_option (map utf8_coerce) (Prefetch m) = Prefetch m"
    using v by (cases "Prefetch m")
      (simp_all add: valid_Manifest_def elems_def list_all_iff valid_utf8_coerce map_idI)
  have b: "map_option (map coerce_File) (Files m) = Files m"
    using v by (cases "Files m")
      (simp_all add: valid_Manifest_def elems_def list_all_iff coerce_valid_File map_idI)
  show ?thesis using v by (simp add: coerce_Manifest_def a b valid_Manifest_def valid_utf8_coerce)
qed

lemma Marshal_no_error: "snd (Marshal m) = None"
  by (cases m) (simp_all add: Marshal_def)

section \<open>Load\<close>

lemma os_ReadFile_text_fs: "os_ReadFile (text_fs data) ''manifest.json'' = (data, None)"
  by (simp add: os_ReadFile_def text_fs_def)

lemma Load_Unmarshal:
  assumes "os_ReadFile fs path = (data, None)"
  shows "Load fs path =
     (case Unmarshal data zero_Manifest of
        None \<Rightarrow> None
      | Some (m, Some err) \<Rightarrow> Some (None, Some err)
      | Some (m, None) \<Rightarrow> Some (Some m, None))"
  using assms by (simp add: Load_def)

lemma Load_Marshal:
  assumes "os_ReadFile fs path = (fst (Marshal (Some m)), None)"
  shows "Load fs path = Some (Some (coerce_Manifest m), None)"
  by (simp add: Load_Unmarshal [OF assms] Unmarshal_Marshal)

















section \<open>The strings a round trip leaves as they are\<close>

lemma length_utf8_coerce: "length s \<le> length (utf8_coerce s)"
proof (induction s rule: utf8_coerce.induct)
  case 1
  show ?case by simp
next
  case (2 c cs)
  let ?n = "rune_len (c # cs)"
  show ?case
  proof (cases "?n = 0")
    case True
    then show ?thesis using 2(1) by (simp add: utf8_coerce.simps(2) replacement_def)
  next
    case False
    have "?n \<le> Suc (length cs)" using rune_len_le [of "c # cs"] by simp
    then show ?thesis using 2(2) [OF False] False by (simp add: utf8_coerce.simps(2))
  qed
qed

lemma utf8_coerce_fixed: "utf8_coerce s = s \<Longrightarrow> valid_utf8 s"
proof (induction s rule: utf8_coerce.induct)
  case 1
  show ?case by simp
next
  case (2 c cs)
  let ?n = "rune_len (c # cs)"
  show ?case
  proof (cases "?n = 0")
    case True
    then have "length (utf8_coerce (c # cs)) = 3 + length (utf8_coerce cs)"
      by (simp add: utf8_coerce.simps(2) replacement_def)
    then show ?thesis using "2.prems" length_utf8_coerce [of cs] by simp
  next
    case False
    have split: "c # cs = take ?n (c # cs) @ drop (?n - 1) cs"
      using False by (cases ?n) simp_all
    have "take ?n (c # cs) @ utf8_coerce (drop (?n - 1) cs) = c # cs"
      using "2.prems" False by (simp add: utf8_coerce.simps(2))
    then have "take ?n (c # cs) @ utf8_coerce (drop (?n - 1) cs) =
        take ?n (c # cs) @ drop (?n - 1) cs"
      using split by simp
    then have "utf8_coerce (drop (?n - 1) cs) = drop (?n - 1) cs" by (simp only: same_append_eq)
    then have "valid_utf8 (drop (?n - 1) cs)" by (rule 2(2) [OF False])
    then show ?thesis using False by simp
  qed
qed

lemma utf8_coerce_id_iff: "utf8_coerce s = s \<longleftrightarrow> valid_utf8 s"
  using utf8_coerce_fixed valid_utf8_coerce by blast

lemma map_fixed_iff: "map f xs = xs \<longleftrightarrow> (\<forall>x \<in> set xs. f x = x)"
  by (induction xs) auto

lemma coerce_File_id_iff: "coerce_File f = f \<longleftrightarrow> valid_File f"
proof
  assume eq: "coerce_File f = f"
  have "Path (coerce_File f) = Path f" "URL (coerce_File f) = URL f"
    "SHA256 (coerce_File f) = SHA256 f" "Compression (coerce_File f) = Compression f"
    by (simp_all only: eq)
  then show "valid_File f" by (simp add: coerce_File_def valid_File_def utf8_coerce_id_iff)
next
  assume "valid_File f"
  then show "coerce_File f = f" by (rule coerce_valid_File)
qed

lemma coerce_Manifest_id_iff: "coerce_Manifest m = m \<longleftrightarrow> valid_Manifest m"
proof
  assume eq: "coerce_Manifest m = m"
  have "ArtifactID (coerce_Manifest m) = ArtifactID m" "Version (coerce_Manifest m) = Version m"
    "MountPath (coerce_Manifest m) = MountPath m" "Prefetch (coerce_Manifest m) = Prefetch m"
    "Files (coerce_Manifest m) = Files m"
    by (simp_all only: eq)
  then have s: "valid_utf8 (ArtifactID m)" "valid_utf8 (Version m)" "valid_utf8 (MountPath m)"
    and p: "map_option (map utf8_coerce) (Prefetch m) = Prefetch m"
    and f: "map_option (map coerce_File) (Files m) = Files m"
    by (simp_all add: coerce_Manifest_def utf8_coerce_id_iff)
  have "list_all valid_utf8 (elems (Prefetch m))"
    using p by (cases "Prefetch m") (simp_all add: elems_def list_all_iff map_fixed_iff utf8_coerce_id_iff)
  moreover have "list_all valid_File (elems (Files m))"
    using f by (cases "Files m") (simp_all add: elems_def list_all_iff map_fixed_iff coerce_File_id_iff)
  ultimately show "valid_Manifest m" using s by (simp add: valid_Manifest_def)
next
  assume "valid_Manifest m"
  then show "coerce_Manifest m = m" by (rule coerce_valid_Manifest)
qed

lemma valid_utf8_ascii: "list_all (\<lambda>c. byte c < 0x80) s \<Longrightarrow> valid_utf8 s"
  using utf8_coerce_all_ascii utf8_coerce_fixed by blast

section \<open>The example manifests\<close>

lemma ascii_test_digest: "list_all (\<lambda>c. byte c < 0x80) test_digest"
  by (simp add: test_digest_def byte_def)

lemma valid_manifest_named:
  assumes "list_all (\<lambda>c. byte c < 0x80) name"
  shows "valid_Manifest (manifest_named name)"
proof -
  have "list_all (\<lambda>c. byte c < 0x80) (''https://example.com/'' @ name)"
    using assms by (simp add: byte_def)
  then have "valid_utf8 (''https://example.com/'' @ name)" by (rule valid_utf8_ascii)
  moreover have "valid_utf8 name" using assms by (rule valid_utf8_ascii)
  moreover have "valid_utf8 test_digest" by (rule valid_utf8_ascii [OF ascii_test_digest])
  moreover have "valid_utf8 ''test''" "valid_utf8 ''v1''" "valid_utf8 ''/mnt/mlmodel''"
    "valid_utf8 ''none''"
    by (rule valid_utf8_ascii, simp add: byte_def)+
  ultimately show ?thesis
    by (simp add: valid_Manifest_def valid_File_def manifest_named_def elems_def)
qed

lemma utf8_coerce_latin1_name: "utf8_coerce latin1_name = replaced_name"
proof -
  have "rune_len latin1_name = 0"
    by (simp add: latin1_name_def rune_len.simps(2) byte_def cont_def)
  moreover have "utf8_coerce ''.bin'' = ''.bin''"
    by (rule utf8_coerce_all_ascii) (simp add: byte_def)
  ultimately show ?thesis
    by (simp add: latin1_name_def replaced_name_def utf8_coerce.simps(2) replacement_def)
qed

lemma utf8_coerce_ascii_append:
  "list_all (\<lambda>c. byte c < 0x80) a \<Longrightarrow> utf8_coerce (a @ s) = a @ utf8_coerce s"
  by (induction a) (simp_all add: utf8_coerce_ascii)

lemma coerce_manifest_latin1:
  "coerce_Manifest (manifest_named latin1_name) = manifest_named replaced_name"
proof -
  have "utf8_coerce (''https://example.com/'' @ latin1_name) =
      ''https://example.com/'' @ utf8_coerce latin1_name"
    by (rule utf8_coerce_ascii_append) (simp add: byte_def)
  moreover have "utf8_coerce test_digest = test_digest"
    by (rule utf8_coerce_all_ascii [OF ascii_test_digest])
  moreover have "utf8_coerce ''test'' = ''test''" "utf8_coerce ''v1'' = ''v1''"
    "utf8_coerce ''/mnt/mlmodel'' = ''/mnt/mlmodel''" "utf8_coerce ''none'' = ''none''"
    by (rule utf8_coerce_all_ascii, simp add: byte_def)+
  ultimately show ?thesis
    by (simp add: manifest_named_def coerce_Manifest_def coerce_File_def
        utf8_coerce_latin1_name)
qed

lemma manifest_latin1_changed: "manifest_named replaced_name \<noteq> manifest_named latin1_name"
  by (simp add: manifest_named_def replaced_name_def latin1_name_def)

lemma Join_unix_latin1:
  "Join_unix ''/data'' (CHR 0xE9 # ''.bin'') = ''/data/'' @ CHR 0xE9 # ''.bin''"
  by (simp add: Join_unix_def Clean_unix_def)

lemma walk_latin1_example:
  "walk (walkFn Unix (example_fs tree_latin1) ''/data'' ''https://example.com'') (''/data'', [])
     tree_latin1 (manifest0 Unix ''test'' ''v1'' None) =
   (None, manifest_named latin1_name)"
  by (simp add: tree_latin1_def latin1_name_def manifest_named_def walk_eval Join_unix_latin1
      hashFile_example)

lemma os_Stat_latin1:
  "os_Stat tree_latin1 =
     Inr \<lparr>info_Name = ''data'', info_IsDir = True, info_ModeSymlink = False, info_Size = 0\<rparr>"
  by (simp add: tree_latin1_def)

lemma Generate_latin1_example:
  "Generate Unix (example_fs tree_latin1) ''/data'' ''test'' ''v1'' ''https://example.com'' None =
     (Some (manifest_named latin1_name), None)"
  by (simp add: Generate_valid [where info = "\<lparr>info_Name = ''data'', info_IsDir = True,
        info_ModeSymlink = False, info_Size = 0\<rparr>"] lookup_example os_Stat_latin1
      walk_latin1_example HasPrefix_def TrimSuffix_def suffix_to_prefix)

section \<open>Marshal and Load: the round trip\<close>

text \<open>
  The claim C5 as the specification states it fails on a manifest that \<open>Generate\<close>
  returns: a file whose name is not valid UTF-8 is listed under its name, \<open>Marshal\<close>
  writes the byte that does not decode as the escape of U+FFFD, and \<open>Load\<close> returns the
  manifest with the three bytes of U+FFFD in the path and the URL, which is another
  manifest.
\<close>

theorem Load_Marshal_latin1_counterexample:
  "Generate Unix (example_fs tree_latin1) ''/data'' ''test'' ''v1'' ''https://example.com'' None =
     (Some (manifest_named latin1_name), None)
   \<and> os_ReadFile (text_fs (fst (Marshal (Some (manifest_named latin1_name))))) ''manifest.json'' =
     (fst (Marshal (Some (manifest_named latin1_name))), None)
   \<and> Load (text_fs (fst (Marshal (Some (manifest_named latin1_name))))) ''manifest.json'' =
     Some (Some (manifest_named replaced_name), None)
   \<and> manifest_named replaced_name \<noteq> manifest_named latin1_name"
  using Load_Marshal [OF os_ReadFile_text_fs, of "manifest_named latin1_name"]
  by (simp add: Generate_latin1_example os_ReadFile_text_fs coerce_manifest_latin1
      manifest_latin1_changed)

text \<open>
  C5, as the code has it. \<open>Marshal\<close> has no error. \<open>Load\<close> of the text that \<open>Marshal\<close>
  writes of a manifest returns, without an error, the manifest with every string coerced
  to valid UTF-8; so does \<open>json.Unmarshal\<close> into an empty manifest. It returns the
  manifest itself exactly when every string of the manifest is valid UTF-8; a nil slice
  comes back nil and an empty one empty.
\<close>

theorem Load_Marshal_round_trip:
  "Marshal (Some m) = (data, err) \<and> os_ReadFile fs path = (data, None) \<longrightarrow>
     err = None \<and>
     Unmarshal data zero_Manifest = Some (coerce_Manifest m, None) \<and>
     Load fs path = Some (Some (coerce_Manifest m), None) \<and>
     (Load fs path = Some (Some m, None) \<longleftrightarrow> valid_Manifest m)"
proof
  assume a: "Marshal (Some m) = (data, err) \<and> os_ReadFile fs path = (data, None)"
  then have d: "data = fst (Marshal (Some m))" and e: "err = snd (Marshal (Some m))"
    by simp_all
  from a d have r: "os_ReadFile fs path = (fst (Marshal (Some m)), None)" by simp
  have l: "Load fs path = Some (Some (coerce_Manifest m), None)"
    by (rule Load_Marshal [OF r])
  have "Load fs path = Some (Some m, None) \<longleftrightarrow> valid_Manifest m"
    unfolding l using coerce_Manifest_id_iff [of m] by auto
  with l show "err = None \<and>
     Unmarshal data zero_Manifest = Some (coerce_Manifest m, None) \<and>
     Load fs path = Some (Some (coerce_Manifest m), None) \<and>
     (Load fs path = Some (Some m, None) \<longleftrightarrow> valid_Manifest m)"
    by (simp add: e d Marshal_no_error Unmarshal_Marshal)
qed

theorem Load_Marshal_round_trip_witness:
  "os_ReadFile (text_fs (fst (Marshal (Some (manifest_named ''test.txt''))))) ''manifest.json'' =
     (fst (Marshal (Some (manifest_named ''test.txt''))), None)
   \<and> valid_Manifest (manifest_named ''test.txt'')
   \<and> snd (Marshal (Some (manifest_named ''test.txt''))) = None
   \<and> Load (text_fs (fst (Marshal (Some (manifest_named ''test.txt''))))) ''manifest.json'' =
     Some (Some (manifest_named ''test.txt''), None)"
proof -
  let ?m = "manifest_named ''test.txt''"
  let ?data = "fst (Marshal (Some ?m))"
  note inst = Load_Marshal_round_trip [where m = ?m and data = ?data
      and err = "snd (Marshal (Some ?m))" and fs = "text_fs ?data" and path = "''manifest.json''"]
  have r: "os_ReadFile (text_fs ?data) ''manifest.json'' = (?data, None)"
    by (rule os_ReadFile_text_fs)
  have v: "valid_Manifest ?m"
    by (rule valid_manifest_named) (simp add: byte_def)
  have p: "Marshal (Some ?m) = (?data, snd (Marshal (Some ?m)))" by simp
  have "snd (Marshal (Some ?m)) = None" using inst p r by blast
  moreover have "Load (text_fs ?data) ''manifest.json'' = Some (Some ?m, None)"
    using inst p r v by blast
  ultimately show ?thesis using r v by blast
qed

section \<open>Load: keys that are absent\<close>







end
